theory Spec2Isabelle
  imports Main "HOL-Library.Word"
begin

unbundle bit_operations_syntax

section \<open>The inode tracer of source/kernel/trace\_inode.c\<close>

text \<open>
  The development follows \<^verbatim>\<open>trace_inode.c\<close>: the identity cache (a hash table with
  collision chains and an LRU list over a fixed array of entries), the fsnotify marks,
  the fsnotify event handler and the walk \<^verbatim>\<open>iotrace_trace_inode\<close> from an inode up
  its chain of parents.

  Pointers into the entry array are modelled by array indices. The intrusive lists are
  lists of indices: \<^verbatim>\<open>lru_list\<close> from its head (most recently used) to its tail,
  each bucket of \<^verbatim>\<open>hash_table\<close> from its first node. Functions of the Linux kernel
  and of the trace library that the file only calls (\<^verbatim>\<open>hash_min\<close>,
  \<^verbatim>\<open>d_find_alias\<close>, \<^verbatim>\<open>dget_parent\<close>, \<^verbatim>\<open>d_inode\<close>,
  \<^verbatim>\<open>octf_trace_get_wr_buffer\<close>, ...) are parameters of the model.

  The functions keep the names of the file without the leading underscore:
  \<^verbatim>\<open>_set_hot\<close>, \<^verbatim>\<open>_get_entry\<close>, \<^verbatim>\<open>_remove_entry\<close>, \<^verbatim>\<open>_lookup\<close>,
  \<^verbatim>\<open>_fs_add_mark\<close>, \<^verbatim>\<open>_trace_file_event\<close>, \<^verbatim>\<open>_fs_handle_event\<close> and
  \<^verbatim>\<open>_trace_filename\<close>; \<^verbatim>\<open>_map\<close> is \<open>map_entry\<close>.
\<close>

subsection \<open>Sizes\<close>

text \<open>
  \<^verbatim>\<open>#define CACHE_HASH_BITS 10ULL\<close>,
  \<^verbatim>\<open>#define CACHE_HASH_SIZE (2ULL << CACHE_HASH_BITS)\<close>,
  \<^verbatim>\<open>#define CACHE_SIZE (CACHE_HASH_SIZE * 4ULL)\<close>: unsigned 64-bit arithmetic.
\<close>

definition CACHE_HASH_BITS :: "64 word" where
  "CACHE_HASH_BITS = 10"

definition CACHE_HASH_SIZE :: "64 word" where
  "CACHE_HASH_SIZE = push_bit (unat CACHE_HASH_BITS) 2"

definition CACHE_SIZE :: "64 word" where
  "CACHE_SIZE = CACHE_HASH_SIZE * 4"

text \<open>
  The number of buckets of \<^verbatim>\<open>DECLARE_HASHTABLE(hash_table, CACHE_HASH_BITS)\<close>.
  The macro is the kernel's (linux/hashtable.h), where it reads
  \<^verbatim>\<open>struct hlist_head name[1 << (bits)]\<close>.
\<close>

definition DECLARE_HASHTABLE :: "64 word \<Rightarrow> nat" where
  "DECLARE_HASHTABLE bits = unat (push_bit (unat bits) (1 :: 64 word))"

definition hash_table_buckets :: nat where
  "hash_table_buckets = DECLARE_HASHTABLE CACHE_HASH_BITS"

subsection \<open>Data\<close>

text \<open>\<^verbatim>\<open>struct cache_entry\<close> without its two list nodes, which the lists below carry.\<close>

record cache_entry =
  inode_id :: "64 word"
  ctime_tv_sec :: "64 word"
  ctime_tv_nsec :: "64 word"
  device_id :: "32 word"

text \<open>
  The fields of \<^verbatim>\<open>struct inode\<close> that the file reads: \<^verbatim>\<open>i_ino\<close>,
  \<^verbatim>\<open>i_sb->s_dev\<close>, \<^verbatim>\<open>i_ctime\<close> and \<^verbatim>\<open>i_mode\<close>.
\<close>

record inode =
  i_ino :: "64 word"
  s_dev :: "32 word"
  i_ctime_tv_sec :: "64 word"
  i_ctime_tv_nsec :: "64 word"
  i_mode :: "16 word"

text \<open>
  \<^verbatim>\<open>struct iotrace_inode_tracer\<close>. \<^verbatim>\<open>fsm\<close> is the monitor's fsnotify group, or
  \<open>None\<close> for the null pointer.
\<close>

record iotrace_inode_tracer =
  hash_table :: "nat \<Rightarrow> nat list"
  lru_list :: "nat list"
  entries :: "cache_entry list"
  fsm :: "nat option"

datatype error = BUG | NULL_DEREFERENCE | LRU_LIST_EMPTY

subsection \<open>List primitives (linux/list.h, linux/hashtable.h)\<close>

definition list_del :: "nat \<Rightarrow> nat list \<Rightarrow> nat list" where
  "list_del entry l = remove1 entry l"

definition list_add :: "nat \<Rightarrow> nat list \<Rightarrow> nat list" where
  "list_add entry l = entry # l"

definition list_add_tail :: "nat \<Rightarrow> nat list \<Rightarrow> nat list" where
  "list_add_tail entry l = l @ [entry]"

text \<open>\<^verbatim>\<open>hash_del\<close> unlinks a node from the chain it is on, if it is on one.\<close>

definition hash_del :: "nat \<Rightarrow> (nat \<Rightarrow> nat list) \<Rightarrow> (nat \<Rightarrow> nat list)" where
  "hash_del entry ht = (\<lambda>b. remove1 entry (ht b))"

text \<open>
  \<^verbatim>\<open>hash_add(table, node, key)\<close> puts the node first in the bucket
  \<^verbatim>\<open>hash_min(key, HASH_BITS(table))\<close>; \<open>h\<close> stands for that hash function.
\<close>

definition hash_add ::
  "(64 word \<Rightarrow> nat) \<Rightarrow> (nat \<Rightarrow> nat list) \<Rightarrow> nat \<Rightarrow> 64 word \<Rightarrow> (nat \<Rightarrow> nat list)" where
  "hash_add h ht entry key = ht (h key := entry # ht (h key))"

subsection \<open>Construction\<close>

definition zero_entry :: cache_entry where
  "zero_entry = \<lparr>inode_id = 0, ctime_tv_sec = 0, ctime_tv_nsec = 0, device_id = 0\<rparr>"

text \<open>
  The body of \<^verbatim>\<open>iotrace_create_inode_tracer\<close> after the allocation, for an entry
  array of \<open>n\<close> elements: the zeroed array, the empty hash table, and the loop that adds
  every entry at the head of the LRU list. \<open>fsm_init\<close> is what \<^verbatim>\<open>_fsm_init\<close>
  leaves in the field \<^verbatim>\<open>fsm\<close>.
\<close>

definition init_inode_tracer :: "nat \<Rightarrow> nat option \<Rightarrow> iotrace_inode_tracer" where
  "init_inode_tracer n fsm_init =
     \<lparr>hash_table = (\<lambda>b. []),
      lru_list = fold list_add [0..<n] [],
      entries = replicate n zero_entry,
      fsm = fsm_init\<rparr>"

definition ENOMEM :: int where
  "ENOMEM = 12"

text \<open>
  \<^verbatim>\<open>iotrace_create_inode_tracer\<close>: the return value and the tracer stored through
  the pointer; \<open>vzalloc_ok\<close> says whether \<^verbatim>\<open>vzalloc_node\<close> returned memory.
\<close>

definition iotrace_create_inode_tracer ::
  "bool \<Rightarrow> nat option \<Rightarrow> int \<times> iotrace_inode_tracer option" where
  "iotrace_create_inode_tracer vzalloc_ok fsm_init =
     (if \<not> vzalloc_ok then (- ENOMEM, None)
      else (0, Some (init_inode_tracer (unat CACHE_SIZE) fsm_init)))"

subsection \<open>The cache\<close>

text \<open>\<^verbatim>\<open>_set_hot\<close> moves an entry to the head of the LRU list.\<close>

definition set_hot :: "iotrace_inode_tracer \<Rightarrow> nat \<Rightarrow> iotrace_inode_tracer" where
  "set_hot tr entry = tr\<lparr>lru_list := list_add entry (list_del entry (lru_list tr))\<rparr>"

text \<open>
  \<^verbatim>\<open>_get_entry\<close> takes the last entry of the LRU list. On an empty list
  \<^verbatim>\<open>list_last_entry\<close> has no entry to return; the model reports that case.
\<close>

definition get_entry :: "iotrace_inode_tracer \<Rightarrow> error + nat \<times> iotrace_inode_tracer" where
  "get_entry tr =
     (case lru_list tr of
        [] \<Rightarrow> Inl LRU_LIST_EMPTY
      | _ # _ \<Rightarrow>
          (let entry = last (lru_list tr) in
           Inr (entry, tr\<lparr>lru_list := list_del entry (lru_list tr),
                           hash_table := hash_del entry (hash_table tr)\<rparr>)))"

definition entry_of_inode :: "inode \<Rightarrow> cache_entry" where
  "entry_of_inode ino =
     \<lparr>inode_id = i_ino ino,
      ctime_tv_sec = i_ctime_tv_sec ino,
      ctime_tv_nsec = i_ctime_tv_nsec ino,
      device_id = s_dev ino\<rparr>"

text \<open>\<^verbatim>\<open>_map\<close>.\<close>

definition map_entry ::
  "(64 word \<Rightarrow> nat) \<Rightarrow> iotrace_inode_tracer \<Rightarrow> inode \<Rightarrow> error + iotrace_inode_tracer" where
  "map_entry h tr ino =
     (case get_entry tr of
        Inl e \<Rightarrow> Inl e
      | Inr (entry, tr1) \<Rightarrow>
          Inr (tr1\<lparr>entries := (entries tr1)[entry := entry_of_inode ino],
                   lru_list := list_add entry (lru_list tr1),
                   hash_table := hash_add h (hash_table tr1) entry (i_ino ino)\<rparr>))"

text \<open>
  \<^verbatim>\<open>_remove_entry\<close> takes an entry off its chain and puts it at the tail of the LRU
  list.
\<close>

definition remove_entry :: "iotrace_inode_tracer \<Rightarrow> nat \<Rightarrow> iotrace_inode_tracer" where
  "remove_entry tr entry =
     tr\<lparr>lru_list := list_add_tail entry (list_del entry (lru_list tr)),
        hash_table := hash_del entry (hash_table tr)\<rparr>"

text \<open>
  The loop of \<^verbatim>\<open>_lookup\<close>. \<^verbatim>\<open>hash_for_each_possible_safe\<close> reads the next node
  before the body runs, and the body unlinks no node but the current one, so the loop
  visits the chain as it was when the loop began.
\<close>

fun lookup_loop ::
  "iotrace_inode_tracer \<Rightarrow> inode \<Rightarrow> nat list \<Rightarrow> nat option \<times> iotrace_inode_tracer" where
  "lookup_loop tr ino [] = (None, tr)"
| "lookup_loop tr ino (entry # next) =
     (if i_ino ino = inode_id (entries tr ! entry) \<and>
         s_dev ino = device_id (entries tr ! entry) then
        if i_ctime_tv_sec ino = ctime_tv_sec (entries tr ! entry) \<and>
           i_ctime_tv_nsec ino = ctime_tv_nsec (entries tr ! entry) then
          (Some entry, set_hot tr entry)
        else lookup_loop (remove_entry tr entry) ino next
      else lookup_loop tr ino next)"

text \<open>\<^verbatim>\<open>_lookup\<close>: the entry found, or \<open>None\<close>, and the tracer after the call.\<close>

definition lookup ::
  "(64 word \<Rightarrow> nat) \<Rightarrow> iotrace_inode_tracer \<Rightarrow> inode \<Rightarrow> nat option \<times> iotrace_inode_tracer" where
  "lookup h tr ino = lookup_loop tr ino (hash_table tr (h (i_ino ino)))"

subsection \<open>The kernel and the trace sink, as the file sees them\<close>

text \<open>
  Inodes and dentries are referred to by address; \<open>None\<close> is the null pointer.
  The record \<open>kernel\<close> collects what the file's callees answer:
  \<^item> \<open>inode_at\<close>: the \<^verbatim>\<open>struct inode\<close> at an address;
  \<^item> \<open>d_find_alias\<close>, \<open>dget_parent\<close>, \<open>d_inode\<close>, \<open>d_name\<close>: the dentry functions and
    the name of a dentry (the reference counts of dentries are not modelled). The file
    tests the results of \<^verbatim>\<open>d_find_alias\<close> and \<^verbatim>\<open>dget_parent\<close> against null,
    so both may be \<open>None\<close> here; in the kernel the root dentry of a file system is
    its own parent;
  \<^item> \<open>hash_min\<close>: the hash function of the hash table;
  \<^item> \<open>octf_trace_get_wr_buffer\<close> and \<open>octf_trace_commit_wr_buffer\<close>: the results of
    the trace sink for the event with a given sequence number;
  \<^item> \<open>fsnotify_add_mark\<close>: the result of \<^verbatim>\<open>IOTRACE_FSNOTIFY_ADD_MARK\<close> for an inode;
  \<^item> \<open>ALL_FSNOTIFY_EVENTS\<close>: the kernel's mask of all events;
  \<^item> \<open>file_name_size\<close>: \<^verbatim>\<open>sizeof(ev->file_name)\<close>.
\<close>

type_synonym inode_ptr = nat
type_synonym dentry_ptr = nat

record kernel =
  inode_at :: "inode_ptr \<Rightarrow> inode"
  d_find_alias :: "inode_ptr \<Rightarrow> dentry_ptr option"
  dget_parent :: "dentry_ptr \<Rightarrow> dentry_ptr option"
  d_inode :: "dentry_ptr \<Rightarrow> inode_ptr option"
  d_name :: "dentry_ptr \<Rightarrow> string"
  hash_min :: "64 word \<Rightarrow> nat"
  octf_trace_get_wr_buffer :: "64 word \<Rightarrow> int"
  octf_trace_commit_wr_buffer :: "64 word \<Rightarrow> int"
  fsnotify_add_mark :: "inode_ptr \<Rightarrow> int"
  ALL_FSNOTIFY_EVENTS :: "32 word"
  file_name_size :: nat

datatype iotrace_fs_event_type =
  iotrace_fs_event_create
| iotrace_fs_event_delete
| iotrace_fs_event_move_to
| iotrace_fs_event_move_from

text \<open>
  The two events written here, \<^verbatim>\<open>struct iotrace_event_fs_file_event\<close> and
  \<^verbatim>\<open>struct iotrace_event_fs_file_name\<close>: the sequence number of the header and the
  fields the file assigns (the time stamp of the header is left out).
\<close>

datatype iotrace_event =
  fs_file_event
    (ev_sid: "64 word") (partition_id: "64 word") (file_id: "64 word")
    (file_ctime_sec: "64 word") (file_ctime_nsec: "64 word")
    (fs_event_type: iotrace_fs_event_type)
| fs_file_name
    (ev_sid: "64 word") (partition_id: "64 word") (file_id: "64 word")
    (file_ctime_sec: "64 word") (file_ctime_nsec: "64 word")
    (file_parent_id: "64 word")
    (parent_ctime_sec: "64 word") (parent_ctime_nsec: "64 word")
    (file_name: string)

record fsnotify_mark =
  mark_mask :: "32 word"
  refcnt :: nat

text \<open>
  The state outside the tracer: the counter \<^verbatim>\<open>sid\<close> of \<^verbatim>\<open>struct iotrace_state\<close>,
  the events committed to the trace, the marks attached to inodes (by group and inode),
  the number of marks allocated from \<^verbatim>\<open>mark_cache\<close> and not freed, and the flag
  \<^verbatim>\<open>fsnotify_ops.inited\<close>. The model follows one execution context: there is one
  trace, and \<^verbatim>\<open>get_cpu\<close> and \<^verbatim>\<open>put_cpu\<close> are left out.
\<close>

record state =
  sid :: "64 word"
  trace :: "iotrace_event list"
  marks :: "nat \<times> inode_ptr \<Rightarrow> fsnotify_mark option"
  mark_cache :: nat
  inited :: bool

subsection \<open>Marks\<close>

text \<open>
  \<^verbatim>\<open>fsnotify_put_mark\<close> on a mark that is not attached: the last reference frees it
  through \<^verbatim>\<open>iotrace_fs_free_mark\<close>.
\<close>

definition put_unattached_mark :: "state \<Rightarrow> fsnotify_mark \<Rightarrow> state" where
  "put_unattached_mark st mark =
     (if refcnt mark - 1 = 0 then st\<lparr>mark_cache := mark_cache st - 1\<rparr> else st)"

text \<open>
  \<^verbatim>\<open>_fs_add_mark\<close>. \<^verbatim>\<open>find_mark\<close> returns the group's mark on the inode with a
  reference taken, which \<^verbatim>\<open>put_mark\<close> gives back. A new mark starts with one
  reference (\<^verbatim>\<open>init_mark\<close>); attaching it takes a second one, and the final
  \<^verbatim>\<open>put_mark\<close> leaves the one of the attachment. \<^verbatim>\<open>kmem_cache_zalloc\<close> is taken
  to return memory.
\<close>

definition fs_add_mark :: "kernel \<Rightarrow> state \<Rightarrow> nat \<Rightarrow> inode_ptr \<Rightarrow> state" where
  "fs_add_mark k st grp inode_p =
     (case marks st (grp, inode_p) of
        Some mark \<Rightarrow>
          st\<lparr>marks := (marks st)((grp, inode_p) \<mapsto> mark\<lparr>refcnt := refcnt mark + 1 - 1\<rparr>)\<rparr>
      | None \<Rightarrow>
          (let st1 = st\<lparr>mark_cache := mark_cache st + 1\<rparr>;
               mark = \<lparr>mark_mask = ALL_FSNOTIFY_EVENTS k, refcnt = 1\<rparr>;
               result = fsnotify_add_mark k inode_p
           in if result \<noteq> 0 then put_unattached_mark st1 mark
              else st1\<lparr>marks := (marks st1)((grp, inode_p) \<mapsto>
                                   mark\<lparr>refcnt := refcnt mark + 1 - 1\<rparr>)\<rparr>))"

subsection \<open>File events\<close>

text \<open>The event bits of linux/fsnotify\_backend.h that the handler tests.\<close>

definition FS_OPEN :: "32 word" where "FS_OPEN = 0x00000020"
definition FS_MOVED_FROM :: "32 word" where "FS_MOVED_FROM = 0x00000040"
definition FS_MOVED_TO :: "32 word" where "FS_MOVED_TO = 0x00000080"
definition FS_CREATE :: "32 word" where "FS_CREATE = 0x00000100"
definition FS_DELETE_SELF :: "32 word" where "FS_DELETE_SELF = 0x00000400"

definition IOTRACE_FSNOTIFY_EVENTS :: "32 word" where
  "IOTRACE_FSNOTIFY_EVENTS = FS_MOVED_FROM OR FS_MOVED_TO OR FS_CREATE OR FS_DELETE_SELF"

text \<open>
  \<^verbatim>\<open>_trace_file_event\<close>: the sequence number is taken first; when the sink has no
  buffer the function returns; otherwise the event is filled in and committed (the
  result of the commit is not read). An event counts as written to the trace when its
  commit returns 0.
\<close>

definition trace_file_event :: "kernel \<Rightarrow> state \<Rightarrow> inode \<Rightarrow> iotrace_fs_event_type \<Rightarrow> state" where
  "trace_file_event k st ino eventType =
     (let part_id = ucast (s_dev ino) :: 64 word;
          file_id = i_ino ino;
          s = sid st + 1;
          st1 = st\<lparr>sid := s\<rparr>
      in if octf_trace_get_wr_buffer k s \<noteq> 0 then st1
         else
           (let ev = fs_file_event s part_id file_id
                       (i_ctime_tv_sec ino) (i_ctime_tv_nsec ino) eventType
            in if octf_trace_commit_wr_buffer k s = 0
               then st1\<lparr>trace := trace st1 @ [ev]\<rparr> else st1))"

text \<open>
  The payload of an event: \<^verbatim>\<open>data_type\<close> with \<^verbatim>\<open>data\<close>. A path payload gives
  the dentry of the path, an inode payload the inode pointer.
\<close>

datatype fsnotify_data =
  FSNOTIFY_EVENT_PATH dentry_ptr
| FSNOTIFY_EVENT_INODE "inode_ptr option"
| FSNOTIFY_EVENT_NONE
| FSNOTIFY_EVENT_other int

text \<open>A use of \<^verbatim>\<open>child_inode\<close> that reads through the pointer.\<close>

definition with_inode ::
  "inode_ptr option \<Rightarrow> (inode_ptr \<Rightarrow> state) \<Rightarrow> error + state" where
  "with_inode p f = (case p of None \<Rightarrow> Inl NULL_DEREFERENCE | Some i \<Rightarrow> Inr (f i))"

definition bind_err :: "error + 'a \<Rightarrow> ('a \<Rightarrow> error + 'b) \<Rightarrow> error + 'b" where
  "bind_err m f = (case m of Inl e \<Rightarrow> Inl e | Inr x \<Rightarrow> f x)"

text \<open>The five conditional statements of \<^verbatim>\<open>_fs_handle_event\<close> after the switch.\<close>

definition fs_handle_child ::
  "kernel \<Rightarrow> state \<Rightarrow> nat \<Rightarrow> 32 word \<Rightarrow> inode_ptr option \<Rightarrow> error + state" where
  "fs_handle_child k st grp msk child_inode =
     bind_err
       (if msk AND FS_MOVED_FROM AND IOTRACE_FSNOTIFY_EVENTS \<noteq> 0
        then with_inode child_inode
               (\<lambda>c. trace_file_event k st (inode_at k c) iotrace_fs_event_move_from)
        else Inr st)
     (\<lambda>st1. bind_err
       (if msk AND FS_MOVED_TO AND IOTRACE_FSNOTIFY_EVENTS \<noteq> 0
        then with_inode child_inode
               (\<lambda>c. trace_file_event k st1 (inode_at k c) iotrace_fs_event_move_to)
        else Inr st1)
     (\<lambda>st2. bind_err
       (if msk AND FS_CREATE \<noteq> 0
        then with_inode child_inode
               (\<lambda>c. let st2a = fs_add_mark k st2 grp c
                    in if msk AND IOTRACE_FSNOTIFY_EVENTS \<noteq> 0
                       then trace_file_event k st2a (inode_at k c) iotrace_fs_event_create
                       else st2a)
        else Inr st2)
     (\<lambda>st3. bind_err
       (if msk AND FS_DELETE_SELF AND IOTRACE_FSNOTIFY_EVENTS \<noteq> 0
        then with_inode child_inode
               (\<lambda>c. trace_file_event k st3 (inode_at k c) iotrace_fs_event_delete)
        else Inr st3)
     (\<lambda>st4.
        if msk AND FS_OPEN \<noteq> 0
        then with_inode child_inode (\<lambda>c. fs_add_mark k st4 grp c)
        else Inr st4))))"

text \<open>
  \<^verbatim>\<open>_fs_handle_event\<close>: the return value and the state. The argument \<^verbatim>\<open>inode\<close>
  (the watched inode) is not read by the function.
\<close>

definition fs_handle_event ::
  "kernel \<Rightarrow> state \<Rightarrow> nat \<Rightarrow> inode_ptr \<Rightarrow> 32 word \<Rightarrow> fsnotify_data \<Rightarrow> error + int \<times> state" where
  "fs_handle_event k st grp inode_p msk data =
     (case data of
        FSNOTIFY_EVENT_PATH d \<Rightarrow>
          bind_err (fs_handle_child k st grp msk (d_inode k d)) (\<lambda>st'. Inr (0, st'))
      | FSNOTIFY_EVENT_INODE p \<Rightarrow>
          bind_err (fs_handle_child k st grp msk p) (\<lambda>st'. Inr (0, st'))
      | FSNOTIFY_EVENT_NONE \<Rightarrow> Inr (0, st)
      | FSNOTIFY_EVENT_other t \<Rightarrow> Inl BUG)"

subsection \<open>File names and the walk\<close>

text \<open>
  \<^verbatim>\<open>_trace_filename\<close>: the result and the state. The name is cut to
  \<^verbatim>\<open>sizeof(ev->file_name) - 1\<close> bytes; the terminating zero byte is implicit in the
  list.
\<close>

definition file_name_event ::
  "kernel \<Rightarrow> 64 word \<Rightarrow> 64 word \<Rightarrow> 64 word \<Rightarrow> 64 word \<Rightarrow> 64 word \<times> 64 word \<Rightarrow>
   64 word \<times> 64 word \<Rightarrow> dentry_ptr \<Rightarrow> iotrace_event" where
  "file_name_event k s part_id fid parent_id ctime parentctime dentry =
     (let smax = length (d_name k dentry);
          dmax = file_name_size k - 1;
          to_copy = min smax dmax
      in fs_file_name s part_id fid (fst ctime) (snd ctime)
           parent_id (fst parentctime) (snd parentctime)
           (take to_copy (d_name k dentry)))"

definition trace_filename ::
  "kernel \<Rightarrow> state \<Rightarrow> 64 word \<Rightarrow> 64 word \<Rightarrow> 64 word \<Rightarrow> 64 word \<times> 64 word \<Rightarrow>
   64 word \<times> 64 word \<Rightarrow> dentry_ptr \<Rightarrow> int \<times> state" where
  "trace_filename k st part_id fid parent_id ctime parentctime dentry =
     (let s = sid st + 1;
          st1 = st\<lparr>sid := s\<rparr>;
          result = octf_trace_get_wr_buffer k s
      in if result \<noteq> 0 then (result, st1)
         else
           (let ev = file_name_event k s part_id fid parent_id ctime parentctime dentry;
                result2 = octf_trace_commit_wr_buffer k s
            in (result2, if result2 = 0 then st1\<lparr>trace := trace st1 @ [ev]\<rparr> else st1)))"

definition S_ISDIR :: "16 word \<Rightarrow> bool" where
  "S_ISDIR m = (m AND 0xF000 = 0x4000)"

text \<open>
  The part of the loop body of \<^verbatim>\<open>iotrace_trace_inode\<close> that gets the parent: the
  parent's inode (read through \<^verbatim>\<open>parent_inode->i_mode\<close> without a null test) and
  the mark put on a parent that is a directory.
\<close>

definition get_parent ::
  "kernel \<Rightarrow> state \<Rightarrow> iotrace_inode_tracer \<Rightarrow> dentry_ptr option \<Rightarrow>
   error + state \<times> inode_ptr option" where
  "get_parent k st tr parent_dentry =
     (case parent_dentry of
        None \<Rightarrow> Inr (st, None)
      | Some pd \<Rightarrow>
          (case d_inode k pd of
             None \<Rightarrow> Inl NULL_DEREFERENCE
           | Some parent_inode \<Rightarrow>
               if S_ISDIR (i_mode (inode_at k parent_inode)) then
                 (case fsm tr of
                    Some grp \<Rightarrow>
                      if inited st then Inr (fs_add_mark k st grp parent_inode, Some parent_inode)
                      else Inr (st, Some parent_inode)
                  | None \<Rightarrow> Inr (st, Some parent_inode))
               else Inr (st, Some parent_inode)))"

text \<open>
  One pass through the body of the do-while loop: the state, the tracer, and the inode
  and dentry of the next pass, or \<open>None\<close> when the loop is left (by \<^verbatim>\<open>break\<close> or by its
  condition).
\<close>

definition walk_body ::
  "kernel \<Rightarrow> state \<Rightarrow> iotrace_inode_tracer \<Rightarrow> inode_ptr \<Rightarrow> dentry_ptr \<Rightarrow>
   error + state \<times> iotrace_inode_tracer \<times> (inode_ptr \<times> dentry_ptr) option" where
  "walk_body k st tr this_inode this_dentry =
     (case lookup (hash_min k) tr (inode_at k this_inode) of
        (Some entry, tr1) \<Rightarrow> Inr (st, tr1, None)
      | (None, tr1) \<Rightarrow>
          (let parent_dentry = dget_parent k this_dentry in
           bind_err (get_parent k st tr1 parent_dentry)
             (\<lambda>(st1, parent_inode).
                let this = inode_at k this_inode;
                    parent_timespec =
                      (case parent_inode of
                         None \<Rightarrow> (0, 0)
                       | Some p \<Rightarrow> (i_ctime_tv_sec (inode_at k p), i_ctime_tv_nsec (inode_at k p)));
                    inode_timespec = (i_ctime_tv_sec this, i_ctime_tv_nsec this);
                    (result, st2) =
                      trace_filename k st1 (ucast (s_dev this)) (i_ino this)
                        (case parent_inode of None \<Rightarrow> 0 | Some p \<Rightarrow> i_ino (inode_at k p))
                        inode_timespec parent_timespec this_dentry
                in bind_err
                     (if result = 0 then map_entry (hash_min k) tr1 this else Inr tr1)
                     (\<lambda>tr2. Inr (st2, tr2,
                        (case (parent_inode, parent_dentry) of
                           (Some p, Some pd) \<Rightarrow> Some (p, pd)
                         | _ \<Rightarrow> None))))))"

text \<open>
  The do-while loop, with fuel: \<open>None\<close> when the passes allowed do not reach the end of
  the loop.
\<close>

fun walk_loop ::
  "nat \<Rightarrow> kernel \<Rightarrow> state \<Rightarrow> iotrace_inode_tracer \<Rightarrow> inode_ptr \<Rightarrow> dentry_ptr \<Rightarrow>
   (error + state \<times> iotrace_inode_tracer) option" where
  "walk_loop 0 k st tr this_inode this_dentry = None"
| "walk_loop (Suc fuel) k st tr this_inode this_dentry =
     (case walk_body k st tr this_inode this_dentry of
        Inl e \<Rightarrow> Some (Inl e)
      | Inr (st', tr', None) \<Rightarrow> Some (Inr (st', tr'))
      | Inr (st', tr', Some (next_inode, next_dentry)) \<Rightarrow>
          walk_loop fuel k st' tr' next_inode next_dentry)"

text \<open>\<^verbatim>\<open>iotrace_trace_inode\<close>.\<close>

definition iotrace_trace_inode ::
  "nat \<Rightarrow> kernel \<Rightarrow> state \<Rightarrow> iotrace_inode_tracer \<Rightarrow> inode_ptr \<Rightarrow>
   (error + state \<times> iotrace_inode_tracer) option" where
  "iotrace_trace_inode fuel k st tr this_inode =
     (case d_find_alias k this_inode of
        None \<Rightarrow> Some (Inr (st, tr))
      | Some this_dentry \<Rightarrow> walk_loop fuel k st tr this_inode this_dentry)"

section \<open>Notions used to state the properties\<close>

subsection \<open>Cache states\<close>

text \<open>
  An entry is mapped when it is on the chain of the bucket its inode number hashes to.
  An inode is cached when the chain of its bucket holds an entry with its inode number,
  device and ctime: the entries on which \<^verbatim>\<open>_lookup\<close> reports a hit.
\<close>

definition hashed :: "(64 word \<Rightarrow> nat) \<Rightarrow> iotrace_inode_tracer \<Rightarrow> nat \<Rightarrow> bool" where
  "hashed h tr i = (i \<in> set (hash_table tr (h (inode_id (entries tr ! i)))))"

definition cached :: "(64 word \<Rightarrow> nat) \<Rightarrow> iotrace_inode_tracer \<Rightarrow> inode \<Rightarrow> bool" where
  "cached h tr ino =
     (\<exists>i \<in> set (hash_table tr (h (i_ino ino))). entries tr ! i = entry_of_inode ino)"

text \<open>
  The cache read along the LRU list, head first: the content of each mapped entry,
  \<open>None\<close> for an entry that is not mapped.
\<close>

definition lru_view :: "(64 word \<Rightarrow> nat) \<Rightarrow> iotrace_inode_tracer \<Rightarrow> cache_entry option list" where
  "lru_view h tr =
     map (\<lambda>i. if hashed h tr i then Some (entries tr ! i) else None) (lru_list tr)"

definition somes :: "'a option list \<Rightarrow> 'a list" where
  "somes ys = map the (filter (\<lambda>y. y \<noteq> None) ys)"

definition live_mappings :: "(64 word \<Rightarrow> nat) \<Rightarrow> iotrace_inode_tracer \<Rightarrow> cache_entry list" where
  "live_mappings h tr = somes (lru_view h tr)"

definition key_of :: "cache_entry \<Rightarrow> 64 word \<times> 32 word" where
  "key_of e = (inode_id e, device_id e)"

definition inode_key :: "inode \<Rightarrow> 64 word \<times> 32 word" where
  "inode_key ino = (i_ino ino, s_dev ino)"

text \<open>
  The shape of the structure for an array of \<open>n\<close> entries: the LRU list holds every
  entry once, no chain holds an entry twice, and an entry on a chain is an entry of the
  array and is on the chain of its inode number.
\<close>

definition cache_wf :: "(64 word \<Rightarrow> nat) \<Rightarrow> nat \<Rightarrow> iotrace_inode_tracer \<Rightarrow> bool" where
  "cache_wf h n tr =
     (length (entries tr) = n \<and>
      distinct (lru_list tr) \<and> set (lru_list tr) = {..<n} \<and>
      (\<forall>b. distinct (hash_table tr b)) \<and>
      (\<forall>b i. i \<in> set (hash_table tr b) \<longrightarrow> i < n \<and> h (inode_id (entries tr ! i)) = b))"

text \<open>No two mapped entries are for the same inode number and device.\<close>

definition nodup :: "(64 word \<Rightarrow> nat) \<Rightarrow> iotrace_inode_tracer \<Rightarrow> bool" where
  "nodup h tr = distinct (map key_of (live_mappings h tr))"

definition cache_inv :: "(64 word \<Rightarrow> nat) \<Rightarrow> nat \<Rightarrow> iotrace_inode_tracer \<Rightarrow> bool" where
  "cache_inv h n tr = (cache_wf h n tr \<and> nodup h tr)"

text \<open>
  An entry of the view is stale for \<open>e\<close> when it is mapped for the inode number and
  device of \<open>e\<close>.
\<close>

definition stale :: "cache_entry \<Rightarrow> cache_entry option \<Rightarrow> bool" where
  "stale e y = (case y of None \<Rightarrow> False | Some e' \<Rightarrow> key_of e' = key_of e)"

text \<open>
  The cache operations as section 4.1 of the specification words them, on the view:
  an insert takes the LRU tail as victim and puts the new mapping at the
  most-recently-used end; a lookup that finds the mapping promotes it; a lookup that
  does not returns the stale candidates to the tail as free entries.
\<close>

definition spec_insert :: "cache_entry \<Rightarrow> cache_entry option list \<Rightarrow> cache_entry option list" where
  "spec_insert e v = Some e # butlast v"

definition spec_lookup ::
  "cache_entry \<Rightarrow> cache_entry option list \<Rightarrow> bool \<times> cache_entry option list" where
  "spec_lookup e v =
     (if Some e \<in> set v then (True, Some e # remove1 (Some e) v)
      else (False, filter (\<lambda>y. \<not> stale e y) v @
                   replicate (length (filter (stale e) v)) None))"

text \<open>A sequence of inserts, stopping at the first that fails.\<close>

fun map_entries ::
  "(64 word \<Rightarrow> nat) \<Rightarrow> iotrace_inode_tracer \<Rightarrow> inode list \<Rightarrow> error + iotrace_inode_tracer" where
  "map_entries h tr [] = Inr tr"
| "map_entries h tr (ino # inos) = bind_err (map_entry h tr ino) (\<lambda>tr'. map_entries h tr' inos)"

text \<open>
  The tracers that the cache operations reach from a new tracer with \<open>n\<close> entries.
\<close>

inductive reachable ::
  "(64 word \<Rightarrow> nat) \<Rightarrow> nat \<Rightarrow> iotrace_inode_tracer \<Rightarrow> bool" for h n where
  reachable_init: "reachable h n (init_inode_tracer n fsm_init)"
| reachable_lookup: "reachable h n tr \<Longrightarrow> reachable h n (snd (lookup h tr ino))"
| reachable_map: "reachable h n tr \<Longrightarrow> map_entry h tr ino = Inr tr' \<Longrightarrow> reachable h n tr'"

subsection \<open>Emission\<close>

text \<open>The trace sink takes the event with sequence number \<open>s\<close>.\<close>

definition sink_ok :: "kernel \<Rightarrow> 64 word \<Rightarrow> bool" where
  "sink_ok k s = (octf_trace_get_wr_buffer k s = 0 \<and> octf_trace_commit_wr_buffer k s = 0)"

text \<open>
  The naming record that the walk writes for the dentry \<open>d\<close> of the inode \<open>this\<close> with
  the parent inode \<open>parent\<close>, under the sequence number \<open>s\<close>.
\<close>

definition naming_record ::
  "kernel \<Rightarrow> 64 word \<Rightarrow> inode_ptr \<Rightarrow> inode_ptr option \<Rightarrow> dentry_ptr \<Rightarrow> iotrace_event" where
  "naming_record k s this parent d =
     file_name_event k s (ucast (s_dev (inode_at k this))) (i_ino (inode_at k this))
       (case parent of None \<Rightarrow> 0 | Some p \<Rightarrow> i_ino (inode_at k p))
       (i_ctime_tv_sec (inode_at k this), i_ctime_tv_nsec (inode_at k this))
       (case parent of
          None \<Rightarrow> (0, 0)
        | Some p \<Rightarrow> (i_ctime_tv_sec (inode_at k p), i_ctime_tv_nsec (inode_at k p)))
       d"

subsection \<open>The event handler as the specification words it\<close>





subsection \<open>Parent chains\<close>

text \<open>
  The chain of parents of a dentry comes to a dentry without a parent after at most
  \<open>m\<close> steps.
\<close>

fun chain_ends :: "kernel \<Rightarrow> nat \<Rightarrow> dentry_ptr \<Rightarrow> bool" where
  "chain_ends k 0 d = (dget_parent k d = None)"
| "chain_ends k (Suc m) d =
     (case dget_parent k d of None \<Rightarrow> True | Some pd \<Rightarrow> chain_ends k m pd)"

subsection \<open>Reading the result of a walk\<close>

text \<open>
  The events in the trace after a walk that returned, and whether an inode is cached
  after it.
\<close>

definition walk_trace ::
  "(error + state \<times> iotrace_inode_tracer) option \<Rightarrow> iotrace_event list option" where
  "walk_trace r = (case r of Some (Inr (st, tr)) \<Rightarrow> Some (trace st) | _ \<Rightarrow> None)"

definition walk_cached ::
  "(64 word \<Rightarrow> nat) \<Rightarrow> (error + state \<times> iotrace_inode_tracer) option \<Rightarrow> inode \<Rightarrow> bool" where
  "walk_cached h r ino = (case r of Some (Inr (st, tr)) \<Rightarrow> cached h tr ino | _ \<Rightarrow> False)"

subsection \<open>Example environments\<close>

text \<open>
  A small file system for concrete runs: the inode at address \<open>p\<close> is a directory with
  inode number \<open>p\<close> on device 8, the dentry \<open>d\<close> is the alias of the inode \<open>d\<close>, the
  parent function and the answers of the sink are arguments.
\<close>

definition example_inode :: "inode_ptr \<Rightarrow> inode" where
  "example_inode p =
     \<lparr>i_ino = of_nat p, s_dev = 8, i_ctime_tv_sec = 100, i_ctime_tv_nsec = 0, i_mode = 0x41ED\<rparr>"

definition example_kernel ::
  "(dentry_ptr \<Rightarrow> dentry_ptr option) \<Rightarrow> (64 word \<Rightarrow> int) \<Rightarrow> kernel" where
  "example_kernel parent sink =
     \<lparr>inode_at = example_inode,
      d_find_alias = Some,
      dget_parent = parent,
      d_inode = Some,
      d_name = (\<lambda>d. ''name''),
      hash_min = (\<lambda>w. unat w mod 4),
      octf_trace_get_wr_buffer = sink,
      octf_trace_commit_wr_buffer = (\<lambda>s. 0),
      fsnotify_add_mark = (\<lambda>p. 0),
      ALL_FSNOTIFY_EVENTS = 0xFFF,
      file_name_size = 64\<rparr>"

definition example_state :: state where
  "example_state = \<lparr>sid = 0, trace = [], marks = Map.empty, mark_cache = 0, inited = True\<rparr>"

text \<open>The inodes at the addresses \<open>0, ..., m - 1\<close>.\<close>

definition example_inodes :: "nat \<Rightarrow> inode list" where
  "example_inodes m = map example_inode [0..<m]"

text \<open>
  A tracer with four entries after one insert: entry 0 is mapped for inode number 5 of
  device 8 with ctime 100, under the hash function of the example kernel.
\<close>

definition example_tracer :: iotrace_inode_tracer where
  "example_tracer =
     \<lparr>hash_table = (\<lambda>b. [])(1 := [0]),
      lru_list = [0, 3, 2, 1],
      entries = [entry_of_inode (example_inode 5), zero_entry, zero_entry, zero_entry],
      fsm = None\<rparr>"

text \<open>Dentry 1 under dentry 2 under dentry 3, which has no parent.\<close>

definition three_levels :: "dentry_ptr \<Rightarrow> dentry_ptr option" where
  "three_levels d = (if d = 1 then Some 2 else if d = 2 then Some 3 else None)"

text \<open>
  The dentry tree as the kernel keeps it: the root dentry (here dentry 1) is its own
  parent, and dentry \<open>d + 1\<close> lies under dentry \<open>d\<close>.
\<close>

definition root_own_parent :: "dentry_ptr \<Rightarrow> dentry_ptr option" where
  "root_own_parent d = (if d \<le> 1 then Some 1 else Some (d - 1))"

definition ENOSPC :: int where
  "ENOSPC = 28"

text \<open>
  A sink that takes every event, one that is full for the event with sequence number 1
  only, and one that is always full.
\<close>

definition never_full :: "64 word \<Rightarrow> int" where
  "never_full s = 0"

definition full_once :: "64 word \<Rightarrow> int" where
  "full_once s = (if s = 1 then - ENOSPC else 0)"

definition always_full :: "64 word \<Rightarrow> int" where
  "always_full s = - ENOSPC"

section \<open>Sizes of the cache and of its hash table\<close>

lemma CACHE_SIZE_value: "unat CACHE_SIZE = 8192"
  by (simp add: CACHE_SIZE_def CACHE_HASH_SIZE_def CACHE_HASH_BITS_def)

lemma hash_table_buckets_value: "hash_table_buckets = 1024"
  by (simp add: hash_table_buckets_def DECLARE_HASHTABLE_def CACHE_HASH_BITS_def)

section \<open>The structure of the cache\<close>

lemma remove1_last_butlast: "distinct l \<Longrightarrow> l \<noteq> [] \<Longrightarrow> remove1 (last l) l = butlast l"
  by (induction l) (auto)

lemma fold_list_add: "fold list_add xs acc = rev xs @ acc"
  by (induction xs arbitrary: acc) (auto simp: list_add_def)

lemma cache_wf_init: "cache_wf h n (init_inode_tracer n f)"
  by (auto simp: cache_wf_def init_inode_tracer_def fold_list_add)

lemma lru_view_init: "lru_view h (init_inode_tracer n f) = replicate n None"
  by (auto simp: lru_view_def init_inode_tracer_def fold_list_add hashed_def map_replicate_const)

lemma cache_wf_lru_mem: "cache_wf h n tr \<Longrightarrow> i \<in> set (lru_list tr) \<longleftrightarrow> i < n"
  by (auto simp: cache_wf_def)

lemma cache_wf_bucket: "cache_wf h n tr \<Longrightarrow> i \<in> set (hash_table tr b) \<Longrightarrow> i < n \<and> h (inode_id (entries tr ! i)) = b"
  by (auto simp: cache_wf_def)

lemma cache_wf_hashed_iff: "cache_wf h n tr \<Longrightarrow> hashed h tr i \<longleftrightarrow> (\<exists>b. i \<in> set (hash_table tr b))"
  by (auto simp: cache_wf_def hashed_def)

lemma cache_wf_set_hot: "cache_wf h n tr \<Longrightarrow> i < n \<Longrightarrow> cache_wf h n (set_hot tr i)"
  by (auto simp: cache_wf_def set_hot_def list_add_def list_del_def)

lemma cache_wf_remove_entry: "cache_wf h n tr \<Longrightarrow> i < n \<Longrightarrow> cache_wf h n (remove_entry tr i)"
  by (auto simp: cache_wf_def remove_entry_def list_add_tail_def list_del_def hash_del_def
      dest: notin_set_remove1)

lemma entries_remove_entry [simp]: "entries (remove_entry tr i) = entries tr"
  by (simp add: remove_entry_def)

lemma entries_set_hot [simp]: "entries (set_hot tr i) = entries tr"
  by (simp add: set_hot_def)

lemma cache_wf_lookup_loop:
  "cache_wf h n tr \<Longrightarrow> set c \<subseteq> {..<n} \<Longrightarrow> cache_wf h n (snd (lookup_loop tr x c))"
  by (induction c arbitrary: tr) (auto simp: cache_wf_set_hot cache_wf_remove_entry)

lemma cache_wf_lookup: "cache_wf h n tr \<Longrightarrow> cache_wf h n (snd (lookup h tr x))"
  unfolding lookup_def
  by (rule cache_wf_lookup_loop) (auto simp: cache_wf_def)

lemma cache_wf_lru_nonempty: "cache_wf h n tr \<Longrightarrow> 0 < n \<Longrightarrow> lru_list tr \<noteq> []"
  by (auto simp: cache_wf_def)

lemma map_entry_eq:
  assumes "cache_wf h n tr" "0 < n"
  shows "map_entry h tr x =
    Inr (tr\<lparr>entries := (entries tr)[last (lru_list tr) := entry_of_inode x],
            lru_list := last (lru_list tr) # butlast (lru_list tr),
            hash_table := hash_add h (hash_del (last (lru_list tr)) (hash_table tr))
                            (last (lru_list tr)) (i_ino x)\<rparr>)"
proof -
  have ne: "lru_list tr \<noteq> []" using assms by (rule cache_wf_lru_nonempty)
  have d: "distinct (lru_list tr)" using assms by (simp add: cache_wf_def)
  show ?thesis
    using ne remove1_last_butlast[OF d ne]
    by (cases "lru_list tr") (simp_all add: map_entry_def get_entry_def Let_def list_add_def list_del_def)
qed

lemma cache_wf_map_entry:
  assumes "cache_wf h n tr" "0 < n" "map_entry h tr x = Inr tr'"
  shows "cache_wf h n tr'"
proof -
  let ?v = "last (lru_list tr)"
  have ne: "lru_list tr \<noteq> []" using assms(1,2) by (rule cache_wf_lru_nonempty)
  have v: "?v < n" using assms(1) ne last_in_set[OF ne] by (auto simp: cache_wf_def)
  have eq: "tr' = tr\<lparr>entries := (entries tr)[?v := entry_of_inode x],
            lru_list := ?v # butlast (lru_list tr),
            hash_table := hash_add h (hash_del ?v (hash_table tr)) ?v (i_ino x)\<rparr>"
    using map_entry_eq[OF assms(1,2), of x] assms(3) by simp
  have d: "distinct (lru_list tr)" and s: "set (lru_list tr) = {..<n}"
    and len: "length (entries tr) = n"
    and bd: "\<And>b. distinct (hash_table tr b)"
    and bm: "\<And>b i. i \<in> set (hash_table tr b) \<Longrightarrow> i < n \<and> h (inode_id (entries tr ! i)) = b"
    using assms(1) by (auto simp: cache_wf_def)
  have l1: "distinct (?v # butlast (lru_list tr))"
    using d ne by (metis append_butlast_last_id distinct_append distinct.simps(2) disjoint_iff list.set_intros(1) distinct_butlast)
  have l2: "set (?v # butlast (lru_list tr)) = {..<n}"
    using s ne by (metis append_butlast_last_id insert_is_Un list.simps(15) set_append sup_commute list.set(1) Un_insert_right sup_bot.right_neutral)
  show ?thesis
    unfolding cache_wf_def eq
    apply (intro conjI)
    subgoal using len by simp
    subgoal using l1 by simp
    subgoal using l2 by simp
    subgoal using bd by (auto simp: hash_add_def hash_del_def)
    subgoal using bm bd v len
      by (auto simp: hash_add_def hash_del_def nth_list_update entry_of_inode_def dest: notin_set_remove1 split: if_splits)
    done
qed

lemma map_entry_succeeds:
  "cache_wf h n tr \<Longrightarrow> 0 < n \<Longrightarrow> \<exists>tr'. map_entry h tr x = Inr tr'"
  using map_entry_eq by blast

lemma lru_view_map_entry:
  assumes "cache_wf h n tr" "0 < n" "map_entry h tr x = Inr tr'"
  shows "lru_view h tr' = spec_insert (entry_of_inode x) (lru_view h tr)"
proof -
  let ?v = "last (lru_list tr)"
  have ne: "lru_list tr \<noteq> []" using assms(1,2) by (rule cache_wf_lru_nonempty)
  have v: "?v < n" using assms(1) ne last_in_set[OF ne] by (auto simp: cache_wf_def)
  have eq: "tr' = tr\<lparr>entries := (entries tr)[?v := entry_of_inode x],
            lru_list := ?v # butlast (lru_list tr),
            hash_table := hash_add h (hash_del ?v (hash_table tr)) ?v (i_ino x)\<rparr>"
    using map_entry_eq[OF assms(1,2), of x] assms(3) by simp
  have d: "distinct (lru_list tr)" and len: "length (entries tr) = n"
    using assms(1) by (auto simp: cache_wf_def)
  have nv: "?v \<notin> set (butlast (lru_list tr))"
    using d ne by (metis append_butlast_last_id distinct_append disjoint_iff list.set_intros(1))
  have hv: "hashed h tr' ?v"
    using v len by (simp add: eq hashed_def hash_add_def entry_of_inode_def)
  have ev: "entries tr' ! ?v = entry_of_inode x"
    using v len by (simp add: eq)
  have other: "\<And>j. j \<noteq> ?v \<Longrightarrow> hashed h tr' j = hashed h tr j \<and> entries tr' ! j = entries tr ! j"
    by (auto simp: eq hashed_def hash_add_def hash_del_def dest: notin_set_remove1)
  have "map (\<lambda>i. if hashed h tr' i then Some (entries tr' ! i) else None) (butlast (lru_list tr))
      = map (\<lambda>i. if hashed h tr i then Some (entries tr ! i) else None) (butlast (lru_list tr))"
  proof (rule map_cong[OF refl])
    fix j assume "j \<in> set (butlast (lru_list tr))"
    then have "j \<noteq> ?v" using nv by auto
    then show "(if hashed h tr' j then Some (entries tr' ! j) else None) =
               (if hashed h tr j then Some (entries tr ! j) else None)"
      using other[of j] by simp
  qed
  moreover have "lru_list tr' = ?v # butlast (lru_list tr)"
    by (simp add: eq)
  ultimately have "lru_view h tr' = Some (entry_of_inode x) #
      map (\<lambda>i. if hashed h tr i then Some (entries tr ! i) else None) (butlast (lru_list tr))"
    using hv ev by (simp add: lru_view_def)
  then show ?thesis
    by (simp add: lru_view_def spec_insert_def map_butlast)
qed

section \<open>Lookups and inserts on the LRU view\<close>

lemma key_of_entry_of_inode [simp]: "key_of (entry_of_inode x) = inode_key x"
  by (simp add: key_of_def entry_of_inode_def inode_key_def)

lemma entry_eqI:
  "i_ino x = inode_id e \<Longrightarrow> s_dev x = device_id e \<Longrightarrow> i_ctime_tv_sec x = ctime_tv_sec e \<Longrightarrow>
   i_ctime_tv_nsec x = ctime_tv_nsec e \<Longrightarrow> e = entry_of_inode x"
  by (cases e) (simp add: entry_of_inode_def)

lemma lookup_loop_miss:
  "\<forall>i\<in>set c. entries tr ! i \<noteq> entry_of_inode x \<Longrightarrow>
   lookup_loop tr x c =
     (None, fold (\<lambda>i t. remove_entry t i)
              (filter (\<lambda>i. key_of (entries tr ! i) = inode_key x) c) tr)"
proof (induction c arbitrary: tr)
  case Nil
  then show ?case by simp
next
  case (Cons i c)
  have ne: "entries tr ! i \<noteq> entry_of_inode x" using Cons.prems by simp
  show ?case
  proof (cases "key_of (entries tr ! i) = inode_key x")
    case True
    then have k: "i_ino x = inode_id (entries tr ! i) \<and> s_dev x = device_id (entries tr ! i)"
      by (auto simp: key_of_def inode_key_def)
    have nc: "\<not> (i_ctime_tv_sec x = ctime_tv_sec (entries tr ! i) \<and>
                i_ctime_tv_nsec x = ctime_tv_nsec (entries tr ! i))"
      using ne k entry_eqI by blast
    have "lookup_loop tr x (i # c) = lookup_loop (remove_entry tr i) x c"
      using k nc by auto
    also have "\<dots> = (None, fold (\<lambda>i t. remove_entry t i)
              (filter (\<lambda>i. key_of (entries tr ! i) = inode_key x) c) (remove_entry tr i))"
      using Cons.IH[of "remove_entry tr i"] Cons.prems by simp
    finally show ?thesis using True by simp
  next
    case False
    then have "lookup_loop tr x (i # c) = lookup_loop tr x c"
      by (auto simp: key_of_def inode_key_def)
    then show ?thesis using Cons.IH[of tr] Cons.prems False by simp
  qed
qed

lemma lookup_loop_hit:
  "i \<in> set c \<Longrightarrow> entries tr ! i = entry_of_inode x \<Longrightarrow>
   \<forall>j\<in>set c. key_of (entries tr ! j) = inode_key x \<longrightarrow> j = i \<Longrightarrow>
   lookup_loop tr x c = (Some i, set_hot tr i)"
proof (induction c)
  case Nil
  then show ?case by simp
next
  case (Cons j c)
  show ?case
  proof (cases "j = i")
    case True
    have "i_ino x = inode_id (entries tr ! i)" "s_dev x = device_id (entries tr ! i)"
      "i_ctime_tv_sec x = ctime_tv_sec (entries tr ! i)"
      "i_ctime_tv_nsec x = ctime_tv_nsec (entries tr ! i)"
      by (simp_all add: Cons.prems(2) entry_of_inode_def)
    then show ?thesis unfolding True by simp
  next
    case False
    then have nk: "key_of (entries tr ! j) \<noteq> inode_key x" using Cons.prems(3) by simp
    have mem: "i \<in> set c" using Cons.prems(1) False by simp
    have rest: "\<forall>j\<in>set c. key_of (entries tr ! j) = inode_key x \<longrightarrow> j = i"
      using Cons.prems(3) by simp
    have "lookup_loop tr x (j # c) = lookup_loop tr x c"
      using nk by (auto simp: key_of_def inode_key_def)
    then show ?thesis using Cons.IH[OF mem Cons.prems(2) rest] by simp
  qed
qed

lemma distinct_remove1_filter: "distinct l \<Longrightarrow> remove1 i l = filter (\<lambda>j. j \<noteq> i) l"
proof -
  assume d: "distinct l"
  have "(\<lambda>y. i \<noteq> y) = (\<lambda>j. j \<noteq> i)" by auto
  then show ?thesis
    using d by (simp add: distinct_remove1_removeAll removeAll_filter_not_eq)
qed

lemma fold_remove_entry:
  assumes "cache_wf h n tr" "distinct S" "set S \<subseteq> {..<n}"
  shows "cache_wf h n (fold (\<lambda>i t. remove_entry t i) S tr) \<and>
         entries (fold (\<lambda>i t. remove_entry t i) S tr) = entries tr \<and>
         fsm (fold (\<lambda>i t. remove_entry t i) S tr) = fsm tr \<and>
         lru_list (fold (\<lambda>i t. remove_entry t i) S tr) =
           filter (\<lambda>j. j \<notin> set S) (lru_list tr) @ S \<and>
         (\<forall>b. hash_table (fold (\<lambda>i t. remove_entry t i) S tr) b =
              filter (\<lambda>j. j \<notin> set S) (hash_table tr b))"
  using assms
proof (induction S arbitrary: tr)
  case Nil
  then show ?case by simp
next
  case (Cons i S)
  let ?t1 = "remove_entry tr i"
  have w1: "cache_wf h n ?t1" using Cons.prems by (simp add: cache_wf_remove_entry)
  have d: "distinct (lru_list tr)" and bd: "\<And>b. distinct (hash_table tr b)"
    using Cons.prems(1) by (auto simp: cache_wf_def)
  have l1: "lru_list ?t1 = filter (\<lambda>j. j \<noteq> i) (lru_list tr) @ [i]"
    by (simp add: remove_entry_def list_add_tail_def list_del_def distinct_remove1_filter[OF d])
  have h1: "\<And>b. hash_table ?t1 b = filter (\<lambda>j. j \<noteq> i) (hash_table tr b)"
    by (simp add: remove_entry_def hash_del_def distinct_remove1_filter[OF bd])
  have f1: "fsm ?t1 = fsm tr" by (simp add: remove_entry_def)
  have ih: "cache_wf h n (fold (\<lambda>i t. remove_entry t i) S ?t1) \<and>
         entries (fold (\<lambda>i t. remove_entry t i) S ?t1) = entries ?t1 \<and>
         fsm (fold (\<lambda>i t. remove_entry t i) S ?t1) = fsm ?t1 \<and>
         lru_list (fold (\<lambda>i t. remove_entry t i) S ?t1) =
           filter (\<lambda>j. j \<notin> set S) (lru_list ?t1) @ S \<and>
         (\<forall>b. hash_table (fold (\<lambda>i t. remove_entry t i) S ?t1) b =
              filter (\<lambda>j. j \<notin> set S) (hash_table ?t1 b))"
    using Cons.IH[OF w1] Cons.prems by simp
  have a: "filter (\<lambda>j. j \<notin> set S) (filter (\<lambda>j. j \<noteq> i) l) = filter (\<lambda>j. j \<notin> set (i # S)) l" for l :: "nat list"
    by (induction l) auto
  have "i \<notin> set S" using Cons.prems(2) by simp
  then show ?case
    using ih by (simp add: l1 h1 f1 a)
qed

lemma length_filter_mem:
  "distinct l \<Longrightarrow> distinct S \<Longrightarrow> set S \<subseteq> set l \<Longrightarrow> length (filter (\<lambda>j. j \<in> set S) l) = length S"
proof -
  assume a: "distinct l" "distinct S" "set S \<subseteq> set l"
  have "length (filter (\<lambda>j. j \<in> set S) l) = card (set (filter (\<lambda>j. j \<in> set S) l))"
    using distinct_card[of "filter (\<lambda>j. j \<in> set S) l"] a(1) by simp
  also have "set (filter (\<lambda>j. j \<in> set S) l) = set S" using a(3) by auto
  also have "card (set S) = length S" using a(2) by (simp add: distinct_card)
  finally show ?thesis .
qed


lemma live_mappings_eq:
  "live_mappings h tr = map (\<lambda>i. entries tr ! i) (filter (hashed h tr) (lru_list tr))"
  unfolding live_mappings_def somes_def lru_view_def
  by (induction "lru_list tr" arbitrary: tr) (auto simp: filter_map comp_def)

lemma map_remove1_unique:
  "i \<in> set l \<Longrightarrow> \<forall>j\<in>set l. f j = f i \<longrightarrow> j = i \<Longrightarrow> map f (remove1 i l) = remove1 (f i) (map f l)"
  by (induction l) auto

lemma cached_iff_view:
  assumes "cache_wf h n tr"
  shows "cached h tr x \<longleftrightarrow> Some (entry_of_inode x) \<in> set (lru_view h tr)"
proof
  assume "cached h tr x"
  then obtain i where i: "i \<in> set (hash_table tr (h (i_ino x)))" "entries tr ! i = entry_of_inode x"
    by (auto simp: cached_def)
  have "i < n" using cache_wf_bucket[OF assms i(1)] by simp
  then have "i \<in> set (lru_list tr)" using assms by (simp add: cache_wf_def)
  moreover have "hashed h tr i" using i by (simp add: hashed_def entry_of_inode_def)
  ultimately show "Some (entry_of_inode x) \<in> set (lru_view h tr)"
    using i(2) by (force simp: lru_view_def)
next
  assume "Some (entry_of_inode x) \<in> set (lru_view h tr)"
  then obtain j where j: "hashed h tr j" "entries tr ! j = entry_of_inode x"
    by (auto simp: lru_view_def split: if_splits)
  then have "j \<in> set (hash_table tr (h (i_ino x)))"
    by (simp add: hashed_def entry_of_inode_def)
  then show "cached h tr x" using j(2) by (auto simp: cached_def)
qed

lemma lookup_miss:
  assumes w: "cache_wf h n tr" and nc: "\<not> cached h tr x"
  shows "\<exists>tr'. lookup h tr x = (None, tr') \<and> cache_wf h n tr' \<and> entries tr' = entries tr \<and>
           fsm tr' = fsm tr \<and>
           lru_view h tr' = snd (spec_lookup (entry_of_inode x) (lru_view h tr)) \<and>
           \<not> fst (spec_lookup (entry_of_inode x) (lru_view h tr))"
proof -
  let ?e = "entry_of_inode x"
  let ?c = "hash_table tr (h (i_ino x))"
  let ?S = "filter (\<lambda>i. key_of (entries tr ! i) = inode_key x) ?c"
  let ?t = "fold (\<lambda>i t. remove_entry t i) ?S tr"
  let ?f = "\<lambda>i. if hashed h tr i then Some (entries tr ! i) else None"
  have miss: "\<forall>i\<in>set ?c. entries tr ! i \<noteq> ?e" using nc by (auto simp: cached_def)
  have lk: "lookup h tr x = (None, ?t)"
    unfolding lookup_def by (rule lookup_loop_miss[OF miss])
  have dS: "distinct ?S" using w by (simp add: cache_wf_def)
  have sS: "set ?S \<subseteq> {..<n}" using cache_wf_bucket[OF w] by auto
  note fr = fold_remove_entry[OF w dS sS]
  have ent: "entries ?t = entries tr" using fr by simp
  have lru: "lru_list ?t = filter (\<lambda>j. j \<notin> set ?S) (lru_list tr) @ ?S" using fr by simp
  have ht: "\<And>b. hash_table ?t b = filter (\<lambda>j. j \<notin> set ?S) (hash_table tr b)" using fr by simp
  have hashed_t: "\<And>j. hashed h ?t j \<longleftrightarrow> hashed h tr j \<and> j \<notin> set ?S"
    unfolding hashed_def ent ht by auto
  have S_iff: "\<And>j. j \<in> set ?S \<longleftrightarrow> stale ?e (?f j)"
  proof -
    fix j
    show "j \<in> set ?S \<longleftrightarrow> stale ?e (?f j)"
    proof
      assume a: "j \<in> set ?S"
      then have k: "key_of (entries tr ! j) = inode_key x" and m: "j \<in> set ?c" by auto
      from k have "inode_id (entries tr ! j) = i_ino x" by (simp add: key_of_def inode_key_def)
      then have "hashed h tr j" using m by (simp add: hashed_def)
      then show "stale ?e (?f j)" using k by (simp add: stale_def)
    next
      assume a: "stale ?e (?f j)"
      then have hj: "hashed h tr j" and k: "key_of (entries tr ! j) = inode_key x"
        by (auto simp: stale_def split: if_splits)
      from k have "inode_id (entries tr ! j) = i_ino x" by (simp add: key_of_def inode_key_def)
      then have "j \<in> set ?c" using hj by (simp add: hashed_def)
      then show "j \<in> set ?S" using k by simp
    qed
  qed
  have p1: "map (\<lambda>i. if hashed h ?t i then Some (entries ?t ! i) else None)
              (filter (\<lambda>j. j \<notin> set ?S) (lru_list tr))
            = filter (\<lambda>y. \<not> stale ?e y) (map ?f (lru_list tr))"
  proof -
    have "map (\<lambda>i. if hashed h ?t i then Some (entries ?t ! i) else None)
              (filter (\<lambda>j. j \<notin> set ?S) (lru_list tr))
          = map ?f (filter (\<lambda>j. j \<notin> set ?S) (lru_list tr))"
      by (rule map_cong[OF refl]) (simp add: hashed_t ent)
    also have "\<dots> = map ?f (filter (\<lambda>j. \<not> stale ?e (?f j)) (lru_list tr))"
      using S_iff by simp
    also have "\<dots> = filter (\<lambda>y. \<not> stale ?e y) (map ?f (lru_list tr))"
      by (simp add: filter_map comp_def)
    finally show ?thesis .
  qed
  have p2: "map (\<lambda>i. if hashed h ?t i then Some (entries ?t ! i) else None) ?S
            = replicate (length ?S) None"
  proof -
    have "map (\<lambda>i. if hashed h ?t i then Some (entries ?t ! i) else None) ?S
          = map (\<lambda>i. None) ?S"
      by (rule map_cong[OF refl]) (simp add: hashed_t)
    then show ?thesis by (simp add: map_replicate_const)
  qed
  have p3: "length ?S = length (filter (stale ?e) (map ?f (lru_list tr)))"
  proof -
    have "set ?S \<subseteq> set (lru_list tr)" using sS w by (simp add: cache_wf_def)
    moreover have "distinct (lru_list tr)" using w by (simp add: cache_wf_def)
    ultimately have "length (filter (\<lambda>j. j \<in> set ?S) (lru_list tr)) = length ?S"
      using dS by (intro length_filter_mem) auto
    moreover have "filter (stale ?e) (map ?f (lru_list tr))
        = map ?f (filter (\<lambda>j. j \<in> set ?S) (lru_list tr))"
      using S_iff by (simp add: filter_map comp_def)
    ultimately show ?thesis by simp
  qed
  have view: "lru_view h ?t = filter (\<lambda>y. \<not> stale ?e y) (lru_view h tr) @
                replicate (length (filter (stale ?e) (lru_view h tr))) None"
    using p1 p2 p3 unfolding lru_view_def lru by simp
  have nin: "Some ?e \<notin> set (lru_view h tr)" using nc cached_iff_view[OF w] by simp
  have "cache_wf h n ?t" using fr by simp
  moreover have "fsm ?t = fsm tr" using fr by simp
  ultimately show ?thesis
    using lk ent view nin by (simp add: spec_lookup_def)
qed

lemma somes_simps [simp]:
  "somes [] = []"
  "somes (Some e # v) = e # somes v"
  "somes (None # v) = somes v"
  "somes (a @ b) = somes a @ somes b"
  "somes (replicate k None) = []"
  by (simp_all add: somes_def)

lemma somes_filter_not_stale:
  "somes (filter (\<lambda>y. \<not> stale e y) v) = filter (\<lambda>e'. key_of e' \<noteq> key_of e) (somes v)"
  by (induction v) (auto simp: stale_def split: option.splits)

lemma somes_remove1: "somes (remove1 (Some e) v) = remove1 e (somes v)"
proof (induction v)
  case Nil
  then show ?case by simp
next
  case (Cons y v)
  then show ?case by (cases y) auto
qed

lemma set_somes: "set (somes v) = {e. Some e \<in> set v}"
  by (induction v) (auto simp: somes_def)

lemma somes_butlast: "\<exists>r. somes v = somes (butlast v) @ r"
proof (cases "v = []")
  case True
  then show ?thesis by simp
next
  case False
  then have "v = butlast v @ [last v]" by simp
  then have "somes v = somes (butlast v) @ somes [last v]"
    by (metis somes_simps(4))
  then show ?thesis by blast
qed

lemma nodup_spec_lookup:
  assumes "distinct (map key_of (somes v))"
  shows "distinct (map key_of (somes (snd (spec_lookup e v))))"
proof (cases "Some e \<in> set v")
  case True
  then have m: "e \<in> set (somes v)" by (simp add: set_somes)
  have d: "distinct (somes v)" and inj: "inj_on key_of (set (somes v))"
    using assms by (auto simp: distinct_map)
  have "distinct (e # remove1 e (somes v))" using d by simp
  moreover have "set (e # remove1 e (somes v)) = set (somes v)" using m d by auto
  ultimately have "distinct (map key_of (e # remove1 e (somes v)))"
    using inj by (simp only: distinct_map)
  then show ?thesis using True by (simp add: spec_lookup_def somes_remove1)
next
  case False
  then show ?thesis
    using assms by (simp add: spec_lookup_def somes_filter_not_stale distinct_map_filter)
qed

lemma nodup_spec_insert:
  assumes "distinct (map key_of (somes v))" "\<forall>y\<in>set v. \<not> stale e y"
  shows "distinct (map key_of (somes (spec_insert e v)))"
proof -
  obtain r where r: "somes v = somes (butlast v) @ r" using somes_butlast by blast
  have d: "distinct (map key_of (somes (butlast v)))"
    using assms(1) by (subst (asm) r) simp
  have "key_of e \<notin> key_of ` set (somes v)"
    using assms(2) by (auto simp: set_somes stale_def)
  moreover have "set (somes (butlast v)) \<subseteq> set (somes v)"
    using r by (metis set_append Un_upper1)
  ultimately have "key_of e \<notin> key_of ` set (somes (butlast v))" by blast
  then show ?thesis using d by (simp add: spec_insert_def)
qed

lemma nodup_unique:
  assumes w: "cache_wf h n tr" and nd: "nodup h tr"
    and "hashed h tr i" "hashed h tr j" "i < n" "j < n"
    and "key_of (entries tr ! i) = key_of (entries tr ! j)"
  shows "i = j"
proof -
  have "distinct (map (\<lambda>i. key_of (entries tr ! i)) (filter (hashed h tr) (lru_list tr)))"
    using nd by (simp add: nodup_def live_mappings_eq comp_def)
  then have inj: "inj_on (\<lambda>i. key_of (entries tr ! i)) (set (filter (hashed h tr) (lru_list tr)))"
    by (simp add: distinct_map)
  have "i \<in> set (filter (hashed h tr) (lru_list tr))" "j \<in> set (filter (hashed h tr) (lru_list tr))"
    using assms by (auto simp: cache_wf_def)
  then show ?thesis using inj assms(7) by (auto dest: inj_onD)
qed

lemma lookup_hit:
  assumes w: "cache_wf h n tr" and nd: "nodup h tr" and c: "cached h tr x"
  shows "\<exists>i tr'. lookup h tr x = (Some i, tr') \<and> cache_wf h n tr' \<and> entries tr' = entries tr \<and>
           fsm tr' = fsm tr \<and>
           lru_view h tr' = snd (spec_lookup (entry_of_inode x) (lru_view h tr)) \<and>
           fst (spec_lookup (entry_of_inode x) (lru_view h tr))"
proof -
  let ?e = "entry_of_inode x"
  let ?c = "hash_table tr (h (i_ino x))"
  let ?f = "\<lambda>i. if hashed h tr i then Some (entries tr ! i) else None"
  obtain i where i: "i \<in> set ?c" "entries tr ! i = ?e"
    using c by (auto simp: cached_def)
  have i_n: "i < n" using cache_wf_bucket[OF w i(1)] by simp
  have hi: "hashed h tr i" using i by (simp add: hashed_def entry_of_inode_def)
  have uniq: "\<And>j. j < n \<Longrightarrow> hashed h tr j \<Longrightarrow> key_of (entries tr ! j) = inode_key x \<Longrightarrow> j = i"
    using nodup_unique[OF w nd _ hi _ i_n] i(2) by simp
  have chain: "\<forall>j\<in>set ?c. key_of (entries tr ! j) = inode_key x \<longrightarrow> j = i"
  proof (intro ballI impI)
    fix j assume j: "j \<in> set ?c" and k: "key_of (entries tr ! j) = inode_key x"
    have "j < n" "h (inode_id (entries tr ! j)) = h (i_ino x)" using cache_wf_bucket[OF w j] by auto
    then show "j = i" using uniq[of j] j k by (simp add: hashed_def)
  qed
  have lk: "lookup h tr x = (Some i, set_hot tr i)"
    unfolding lookup_def by (rule lookup_loop_hit[OF i chain])
  have hs: "\<And>j. hashed h (set_hot tr i) j = hashed h tr j"
    by (simp add: hashed_def set_hot_def)
  have il: "i \<in> set (lru_list tr)" using i_n w by (simp add: cache_wf_def)
  have u2: "\<forall>j\<in>set (lru_list tr). ?f j = ?f i \<longrightarrow> j = i"
  proof (intro ballI impI)
    fix j assume j: "j \<in> set (lru_list tr)" and eq: "?f j = ?f i"
    have "j < n" using j w by (simp add: cache_wf_def)
    moreover have "hashed h tr j \<and> entries tr ! j = ?e"
      using eq hi i(2) by (auto split: if_splits)
    ultimately show "j = i" using uniq[of j] by simp
  qed
  have "lru_view h (set_hot tr i) = ?f i # map ?f (remove1 i (lru_list tr))"
    by (simp add: lru_view_def hs) (simp add: set_hot_def list_add_def list_del_def)
  also have "\<dots> = Some ?e # remove1 (Some ?e) (lru_view h tr)"
    using map_remove1_unique[OF il u2] hi i(2) by (simp add: lru_view_def)
  finally have view: "lru_view h (set_hot tr i) = Some ?e # remove1 (Some ?e) (lru_view h tr)" .
  have "Some ?e \<in> set (lru_view h tr)" using c cached_iff_view[OF w] by simp
  then show ?thesis
    using lk view cache_wf_set_hot[OF w i_n] by (simp add: spec_lookup_def set_hot_def)
qed

lemma lookup_refines:
  assumes "cache_inv h n tr"
  shows "\<exists>r tr'. lookup h tr x = (r, tr') \<and> (r \<noteq> None) = cached h tr x \<and>
           cached h tr x = fst (spec_lookup (entry_of_inode x) (lru_view h tr)) \<and>
           lru_view h tr' = snd (spec_lookup (entry_of_inode x) (lru_view h tr)) \<and>
           cache_inv h n tr' \<and> entries tr' = entries tr \<and> fsm tr' = fsm tr"
proof (cases "cached h tr x")
  case True
  obtain i tr' where a: "lookup h tr x = (Some i, tr')" "cache_wf h n tr'" "entries tr' = entries tr"
      "fsm tr' = fsm tr" "lru_view h tr' = snd (spec_lookup (entry_of_inode x) (lru_view h tr))"
      "fst (spec_lookup (entry_of_inode x) (lru_view h tr))"
    using lookup_hit[OF _ _ True, of n] assms by (auto simp: cache_inv_def)
  have "nodup h tr'"
    using nodup_spec_lookup[of "lru_view h tr" "entry_of_inode x"] assms a(5)
    by (simp add: nodup_def live_mappings_def cache_inv_def)
  then show ?thesis using a True by (simp add: cache_inv_def)
next
  case False
  obtain tr' where a: "lookup h tr x = (None, tr')" "cache_wf h n tr'" "entries tr' = entries tr"
      "fsm tr' = fsm tr" "lru_view h tr' = snd (spec_lookup (entry_of_inode x) (lru_view h tr))"
      "\<not> fst (spec_lookup (entry_of_inode x) (lru_view h tr))"
    using lookup_miss[OF _ False, of n] assms by (auto simp: cache_inv_def)
  have "nodup h tr'"
    using nodup_spec_lookup[of "lru_view h tr" "entry_of_inode x"] assms a(5)
    by (simp add: nodup_def live_mappings_def cache_inv_def)
  then show ?thesis using a False by (simp add: cache_inv_def)
qed

section \<open>Marks\<close>

lemma fs_add_mark_present:
  "marks st (grp, p) = Some m \<Longrightarrow> fs_add_mark k st grp p = st"
  by (simp add: fs_add_mark_def map_upd_triv)

lemma fs_add_mark_fails:
  "marks st (grp, p) = None \<Longrightarrow> fsnotify_add_mark k p \<noteq> 0 \<Longrightarrow> fs_add_mark k st grp p = st"
  by (simp add: fs_add_mark_def put_unattached_mark_def Let_def)

lemma fs_add_mark_new:
  "marks st (grp, p) = None \<Longrightarrow> fsnotify_add_mark k p = 0 \<Longrightarrow>
   fs_add_mark k st grp p =
     st\<lparr>mark_cache := mark_cache st + 1,
        marks := (marks st)((grp, p) \<mapsto> \<lparr>mark_mask = ALL_FSNOTIFY_EVENTS k, refcnt = 1\<rparr>)\<rparr>"
  by (simp add: fs_add_mark_def Let_def)

section \<open>The event handler\<close>








section \<open>Sequences of inserts\<close>

lemma length_lru_view: "cache_wf h n tr \<Longrightarrow> length (lru_view h tr) = n"
proof -
  assume w: "cache_wf h n tr"
  then have "distinct (lru_list tr)" "set (lru_list tr) = {..<n}" by (auto simp: cache_wf_def)
  then have "length (lru_list tr) = n" using distinct_card[of "lru_list tr"] by simp
  then show ?thesis by (simp add: lru_view_def)
qed

lemma lookup_miss_eq:
  assumes nc: "\<not> cached h tr x"
  shows "lookup h tr x =
    (None, fold (\<lambda>i t. remove_entry t i)
             (filter (\<lambda>i. key_of (entries tr ! i) = inode_key x) (hash_table tr (h (i_ino x)))) tr)"
proof -
  have "\<forall>i\<in>set (hash_table tr (h (i_ino x))). entries tr ! i \<noteq> entry_of_inode x"
    using nc by (auto simp: cached_def)
  then show ?thesis unfolding lookup_def by (rule lookup_loop_miss)
qed

lemma reachable_cache_wf: "reachable h n tr \<Longrightarrow> 0 < n \<Longrightarrow> cache_wf h n tr"
proof (induction rule: reachable.induct)
  case (reachable_init fsm_init)
  show ?case by (rule cache_wf_init)
next
  case (reachable_lookup tr ino)
  then show ?case by (simp add: cache_wf_lookup)
next
  case (reachable_map tr ino tr')
  then show ?case using cache_wf_map_entry by blast
qed

lemma length_somes: "length (somes v) \<le> length v"
  by (simp add: somes_def)

lemma take_append_butlast:
  assumes "length v = n"
  shows "take n (A @ x # butlast v) = take n (A @ x # v)"
proof (cases "n \<le> length A")
  case True
  then show ?thesis by simp
next
  case False
  then obtain m where m: "n - length A = Suc m" by (cases "n - length A") auto
  then have "m < length v" using assms by simp
  then have "take m (butlast v) = take m v" by (rule take_butlast)
  then show ?thesis using m by simp
qed

lemma map_entries_view:
  assumes "cache_wf h n tr" "0 < n"
  shows "\<exists>tr'. map_entries h tr ks = Inr tr' \<and> cache_wf h n tr' \<and>
           lru_view h tr' = take n (rev (map (\<lambda>x. Some (entry_of_inode x)) ks) @ lru_view h tr)"
  using assms(1)
proof (induction ks arbitrary: tr)
  case Nil
  then show ?case by (simp add: length_lru_view)
next
  case (Cons x ks)
  obtain t1 where t1: "map_entry h tr x = Inr t1"
    using map_entry_succeeds[OF Cons.prems assms(2)] by blast
  have w1: "cache_wf h n t1" using cache_wf_map_entry[OF Cons.prems assms(2) t1] .
  have v1: "lru_view h t1 = Some (entry_of_inode x) # butlast (lru_view h tr)"
    using lru_view_map_entry[OF Cons.prems assms(2) t1] by (simp add: spec_insert_def)
  obtain tr' where tr': "map_entries h t1 ks = Inr tr'" "cache_wf h n tr'"
    "lru_view h tr' = take n (rev (map (\<lambda>x. Some (entry_of_inode x)) ks) @ lru_view h t1)"
    using Cons.IH[OF w1] by blast
  have "lru_view h tr' = take n (rev (map (\<lambda>x. Some (entry_of_inode x)) ks) @
                           Some (entry_of_inode x) # butlast (lru_view h tr))"
    unfolding tr'(3) v1 ..
  also have "\<dots> = take n (rev (map (\<lambda>x. Some (entry_of_inode x)) ks) @
                           Some (entry_of_inode x) # lru_view h tr)"
    by (rule take_append_butlast[OF length_lru_view[OF Cons.prems]])
  finally show ?case using t1 tr'(1,2) by (simp add: bind_err_def)
qed

lemma entry_of_inode_key: "entry_of_inode x = entry_of_inode y \<Longrightarrow> inode_key x = inode_key y"
  by (simp add: entry_of_inode_def inode_key_def)

lemma distinct_upto_words:
  "m \<le> 2 ^ 64 \<Longrightarrow> distinct (map (\<lambda>i. (word_of_nat i :: 64 word)) [0..<m])"
  by (auto simp: distinct_map inj_on_def word_of_nat_eq_iff take_bit_nat_eq_self)

section \<open>Facts for the cache claims\<close>

lemma cached_view:
  assumes "cache_wf h n tr" "lru_view h tr = v"
  shows "cached h tr x \<longleftrightarrow> Some (entry_of_inode x) \<in> set v"
  using cached_iff_view[OF assms(1)] assms(2) by simp

lemma entry_neq: "inode_key x \<noteq> inode_key y \<Longrightarrow> entry_of_inode x \<noteq> entry_of_inode y"
  using entry_of_inode_key by blast

lemma map_entry_victim:
  assumes w: "cache_wf h n tr" and n: "0 < n"
  shows "\<exists>tr'. map_entry h tr x = Inr tr' \<and>
           lru_list tr' = last (lru_list tr) # butlast (lru_list tr) \<and>
           entries tr' = (entries tr)[last (lru_list tr) := entry_of_inode x] \<and>
           cached h tr' x"
proof -
  obtain tr' where t: "map_entry h tr x = Inr tr'" using map_entry_succeeds[OF w n] by blast
  have w': "cache_wf h n tr'" using cache_wf_map_entry[OF w n t] .
  have "lru_view h tr' = Some (entry_of_inode x) # butlast (lru_view h tr)"
    using lru_view_map_entry[OF w n t] by (simp add: spec_insert_def)
  then have "cached h tr' x" using cached_iff_view[OF w'] by simp
  then show ?thesis using t map_entry_eq[OF w n, of x] by auto
qed

lemma insert_one_too_many:
  assumes n: "0 < n" and len: "length ks = n + 1" and d: "distinct (map inode_key ks)"
  shows "\<exists>tr'. map_entries h (init_inode_tracer n f) ks = Inr tr' \<and>
           \<not> cached h tr' (hd ks) \<and> (\<forall>x\<in>set (tl ks). cached h tr' x) \<and>
           live_mappings h tr' = rev (map entry_of_inode (tl ks))"
proof -
  let ?S = "\<lambda>x. Some (entry_of_inode x)"
  obtain tr' where t: "map_entries h (init_inode_tracer n f) ks = Inr tr'" "cache_wf h n tr'"
      "lru_view h tr' = take n (rev (map ?S ks) @ lru_view h (init_inode_tracer n f))"
    using map_entries_view[OF cache_wf_init n] by blast
  obtain k ks' where ks: "ks = k # ks'" using len by (cases ks) auto
  have l': "length ks' = n" using len ks by simp
  have "take n (rev (map ?S ks) @ lru_view h (init_inode_tracer n f)) = rev (map ?S ks')"
    using l' by (simp add: ks)
  then have v: "lru_view h tr' = rev (map ?S ks')" using t(3) by simp
  have kk: "inode_key k \<notin> inode_key ` set ks'" using d ks by simp
  have c1: "\<not> cached h tr' (hd ks)"
  proof
    assume "cached h tr' (hd ks)"
    then have "Some (entry_of_inode k) \<in> set (rev (map ?S ks'))"
      using cached_view[OF t(2) v] ks by simp
    then obtain y where "y \<in> set ks'" "entry_of_inode k = entry_of_inode y" by auto
    then show False using kk entry_of_inode_key by blast
  qed
  have c2: "\<forall>x\<in>set (tl ks). cached h tr' x"
    using cached_view[OF t(2) v] ks by simp
  have "somes (rev (map ?S ks')) = rev (map entry_of_inode ks')"
    by (induction ks') (simp_all)
  then have c3: "live_mappings h tr' = rev (map entry_of_inode (tl ks))"
    using v ks by (simp add: live_mappings_def)
  show ?thesis using t(1) c1 c2 c3 by blast
qed

lemma CACHE_SIZE_pos: "0 < unat CACHE_SIZE"
  by (simp add: CACHE_SIZE_value)

lemma length_example_inodes: "length (example_inodes m) = m"
  by (simp add: example_inodes_def)

lemma distinct_example_inodes:
  assumes "m \<le> 2 ^ 64"
  shows "distinct (map inode_key (example_inodes m))"
proof -
  have "map inode_key (example_inodes m) = map (\<lambda>w. (w, 8)) (map (\<lambda>i. word_of_nat i :: 64 word) [0..<m])"
    by (simp add: example_inodes_def inode_key_def example_inode_def comp_def)
  moreover have "distinct (map (\<lambda>w::64 word. (w, 8 :: 32 word)) (map (\<lambda>i. word_of_nat i :: 64 word) [0..<m]))"
    using distinct_upto_words[OF assms] by (simp add: distinct_map inj_on_def)
  ultimately show ?thesis by simp
qed

lemma hd_example_inodes: "0 < m \<Longrightarrow> hd (example_inodes m) = example_inode 0"
  by (simp add: example_inodes_def hd_map)

lemma tl_example_inodes: "0 < i \<Longrightarrow> i < m \<Longrightarrow> example_inode i \<in> set (tl (example_inodes m))"
proof -
  assume a: "0 < i" "i < m"
  have "tl (example_inodes m) = map example_inode [1..<m]"
    by (simp add: example_inodes_def map_tl[symmetric] tl_upt)
  then show ?thesis using a by auto
qed

lemma butlast_append_replicate:
  "0 < k \<Longrightarrow> butlast (A @ replicate k x) = A @ replicate (k - 1) x"
proof -
  assume "0 < k"
  then obtain m where m: "k = Suc m" by (cases k) auto
  have "replicate (Suc m) x = replicate m x @ [x]" by (simp add: replicate_append_same)
  then have "butlast (A @ replicate (Suc m) x) = A @ replicate m x"
    by (simp only: append_assoc[symmetric] butlast_snoc)
  then show ?thesis using m by simp
qed

lemma cached_iff_live:
  "cache_wf h n tr \<Longrightarrow> cached h tr x \<longleftrightarrow> entry_of_inode x \<in> set (live_mappings h tr)"
  by (simp add: cached_iff_view live_mappings_def set_somes)

lemma example_tracer_wf: "cache_wf (\<lambda>w. unat w mod 4) 4 example_tracer"
  by (auto simp: cache_wf_def example_tracer_def entry_of_inode_def example_inode_def
      split: if_splits)

lemma example_tracer_nodup: "nodup (\<lambda>w. unat w mod 4) example_tracer"
  by (simp add: nodup_def live_mappings_def lru_view_def somes_def hashed_def example_tracer_def
      entry_of_inode_def example_inode_def zero_entry_def)

section \<open>The walk\<close>

lemma lookup_loop_result:
  "fst (lookup_loop tr x c) \<noteq> None \<longleftrightarrow> (\<exists>i\<in>set c. entries tr ! i = entry_of_inode x)"
proof (induction c arbitrary: tr)
  case Nil
  then show ?case by simp
next
  case (Cons i c)
  show ?case
  proof (cases "entries tr ! i = entry_of_inode x")
    case True
    then show ?thesis by (simp add: entry_of_inode_def)
  next
    case False
    show ?thesis
    proof (cases "i_ino x = inode_id (entries tr ! i) \<and> s_dev x = device_id (entries tr ! i)")
      case True
      then have "\<not> (i_ctime_tv_sec x = ctime_tv_sec (entries tr ! i) \<and>
                  i_ctime_tv_nsec x = ctime_tv_nsec (entries tr ! i))"
        using False entry_eqI by blast
      then have "lookup_loop tr x (i # c) = lookup_loop (remove_entry tr i) x c"
        using True by auto
      then show ?thesis using Cons.IH[of "remove_entry tr i"] False by simp
    next
      case k: False
      then have "lookup_loop tr x (i # c) = lookup_loop tr x c" by auto
      then show ?thesis using Cons.IH[of tr] False by simp
    qed
  qed
qed

lemma lookup_result: "fst (lookup h tr x) \<noteq> None \<longleftrightarrow> cached h tr x"
  unfolding lookup_def cached_def by (rule lookup_loop_result)

lemma fs_add_mark_keeps [simp]:
  "sid (fs_add_mark k st grp p) = sid st"
  "trace (fs_add_mark k st grp p) = trace st"
  "inited (fs_add_mark k st grp p) = inited st"
  by (simp_all add: fs_add_mark_def put_unattached_mark_def Let_def split: option.splits)

lemma get_parent_keeps:
  "get_parent k st tr pd = Inr (st1, p) \<Longrightarrow>
   sid st1 = sid st \<and> trace st1 = trace st \<and> inited st1 = inited st"
  by (auto simp: get_parent_def split: option.splits if_splits)

lemma get_parent_fsm: "fsm tr1 = fsm tr \<Longrightarrow> get_parent k st tr1 pd = get_parent k st tr pd"
  by (auto simp: get_parent_def split: option.splits)

lemma get_parent_None [simp]: "get_parent k st tr None = Inr (st, None)"
  by (simp add: get_parent_def)

lemma get_parent_Some:
  "d_inode k pd = Some p \<Longrightarrow> \<exists>st1. get_parent k st tr (Some pd) = Inr (st1, Some p)"
  by (simp add: get_parent_def split: option.splits)

lemma trace_filename_ok:
  "sink_ok k (sid st + 1) \<Longrightarrow>
   trace_filename k st part fid pid ct pct d =
     (0, st\<lparr>sid := sid st + 1,
            trace := trace st @ [file_name_event k (sid st + 1) part fid pid ct pct d]\<rparr>)"
  by (simp add: trace_filename_def sink_ok_def Let_def)

lemma trace_filename_fails:
  "\<not> sink_ok k (sid st + 1) \<Longrightarrow>
   fst (trace_filename k st part fid pid ct pct d) \<noteq> 0 \<and>
   snd (trace_filename k st part fid pid ct pct d) = st\<lparr>sid := sid st + 1\<rparr>"
  by (auto simp: trace_filename_def sink_ok_def Let_def)

lemma walk_body_hit:
  "lookup (hash_min k) tr (inode_at k this_inode) = (Some e, tr1) \<Longrightarrow>
   walk_body k st tr this_inode this_dentry = Inr (st, tr1, None)"
  by (simp add: walk_body_def)

lemma walk_body_miss_fails:
  assumes "lookup (hash_min k) tr (inode_at k this_inode) = (None, tr1)"
    and "get_parent k st tr1 (dget_parent k this_dentry) = Inr (st1, parent_inode)"
    and "\<not> sink_ok k (sid st + 1)"
  shows "walk_body k st tr this_inode this_dentry =
           Inr (st1\<lparr>sid := sid st + 1\<rparr>, tr1,
                case (parent_inode, dget_parent k this_dentry) of
                  (Some p, Some pd) \<Rightarrow> Some (p, pd) | _ \<Rightarrow> None)"
proof -
  have s: "sid st1 = sid st" using get_parent_keeps[OF assms(2)] by simp
  have f: "\<not> sink_ok k (sid st1 + 1)" using assms(3) s by simp
  show ?thesis
    using trace_filename_fails[OF f] assms(1,2) s
    by (simp add: walk_body_def bind_err_def Let_def split_beta)
qed

lemma walk_body_miss_ok:
  assumes "lookup (hash_min k) tr (inode_at k this_inode) = (None, tr1)"
    and "get_parent k st tr1 (dget_parent k this_dentry) = Inr (st1, parent_inode)"
    and "sink_ok k (sid st + 1)"
    and "map_entry (hash_min k) tr1 (inode_at k this_inode) = Inr tr2"
  shows "walk_body k st tr this_inode this_dentry =
           Inr (st1\<lparr>sid := sid st + 1,
                    trace := trace st @
                      [naming_record k (sid st + 1) this_inode parent_inode this_dentry]\<rparr>, tr2,
                case (parent_inode, dget_parent k this_dentry) of
                  (Some p, Some pd) \<Rightarrow> Some (p, pd) | _ \<Rightarrow> None)"
proof -
  have s: "sid st1 = sid st" "trace st1 = trace st" using get_parent_keeps[OF assms(2)] by simp_all
  have f: "sink_ok k (sid st1 + 1)" using assms(3) s by simp
  show ?thesis
    using assms(1,2,4) s
    by (simp add: walk_body_def bind_err_def Let_def split_beta trace_filename_ok[OF f]
        naming_record_def)
qed

lemmas walk_eval =
  iotrace_trace_inode_def walk_body_def lookup_def get_parent_def
  trace_filename_def file_name_event_def map_entry_def get_entry_def init_inode_tracer_def
  example_kernel_def example_state_def example_inode_def three_levels_def full_once_def
  ENOSPC_def bind_err_def S_ISDIR_def list_add_def list_del_def hash_add_def hash_del_def
  entry_of_inode_def zero_entry_def Let_def walk_trace_def walk_cached_def cached_def
  naming_record_def sink_ok_def fs_add_mark_def

lemma walk_loop_next:
  "walk_body k st tr i d = Inr (st', tr', Some (p, pd)) \<Longrightarrow>
   walk_loop (Suc fuel) k st tr i d = walk_loop fuel k st' tr' p pd"
  by simp

lemma walk_loop_stop:
  "walk_body k st tr i d = Inr (st', tr', None) \<Longrightarrow>
   walk_loop (Suc fuel) k st tr i d = Some (Inr (st', tr'))"
  by simp

lemma walk_body_next_parent:
  "walk_body k st tr i d = Inr (st', tr', Some (p, pd)) \<Longrightarrow> dget_parent k d = Some pd"
  by (auto simp: walk_body_def bind_err_def Let_def split_beta
      split: prod.splits option.splits sum.splits if_splits)

lemma walk_loop_returns:
  "chain_ends k m d \<Longrightarrow> walk_loop (Suc m) k st tr i d \<noteq> None"
proof (induction m arbitrary: st tr i d)
  case 0
  show ?case
  proof (cases "walk_body k st tr i d")
    case (Inl e)
    then show ?thesis by simp
  next
    case (Inr r)
    obtain st' tr' nx where r: "r = (st', tr', nx)" by (cases r) auto
    have "nx = None"
    proof (cases nx)
      case None
      then show ?thesis .
    next
      case (Some a)
      obtain p pd where "a = (p, pd)" by (cases a) auto
      then have "dget_parent k d = Some pd"
        using walk_body_next_parent[of k st tr i d st' tr' p pd] Inr r Some by simp
      then show ?thesis using "0.prems" by simp
    qed
    then show ?thesis using Inr r by simp
  qed
next
  case (Suc m)
  show ?case
  proof (cases "walk_body k st tr i d")
    case (Inl e)
    then show ?thesis by simp
  next
    case (Inr r)
    obtain st' tr' nx where r: "r = (st', tr', nx)" by (cases r) auto
    show ?thesis
    proof (cases nx)
      case None
      then show ?thesis using Inr r by simp
    next
      case (Some a)
      obtain p pd where a: "a = (p, pd)" by (cases a) auto
      have b: "walk_body k st tr i d = Inr (st', tr', Some (p, pd))" using Inr r Some a by simp
      have "dget_parent k d = Some pd" using walk_body_next_parent[OF b] .
      then have "chain_ends k m pd" using Suc.prems by simp
      then have "walk_loop (Suc m) k st' tr' p pd \<noteq> None" by (rule Suc.IH)
      then show ?thesis using walk_loop_next[OF b, of "Suc m"] by simp
    qed
  qed
qed

section \<open>Passes of the walk that insert\<close>

lemma butlast_append_ne: "ys \<noteq> [] \<Longrightarrow> butlast (xs @ ys) = xs @ butlast ys"
  by (simp add: butlast_append)

lemma set_cons_remove1: "x \<in> set v \<Longrightarrow> set (x # remove1 x v) = set v"
  by (induction v) auto

lemma miss_insert_view:
  assumes "v = pre @ rest" "rest \<noteq> []" "\<forall>y\<in>set pre. \<not> stale e y"
  shows "\<exists>rest'. Some e # butlast (filter (\<lambda>y. \<not> stale e y) v @
                      replicate (length (filter (stale e) v)) None) = Some e # pre @ rest' \<and>
           length rest' = length rest - 1 \<and> set rest' \<subseteq> insert None (set rest)"
proof -
  let ?X = "filter (\<lambda>y. \<not> stale e y) rest @ replicate (length (filter (stale e) rest)) None"
  have p: "filter (\<lambda>y. \<not> stale e y) pre = pre" "filter (stale e) pre = []"
    using assms(3) by (simp_all add: filter_id_conv filter_empty_conv)
  have lX: "length ?X = length rest"
    using sum_length_filter_compl[of "stale e" rest] by simp
  then have ne: "?X \<noteq> []" using assms(2) by auto
  have "filter (\<lambda>y. \<not> stale e y) v @ replicate (length (filter (stale e) v)) None = pre @ ?X"
    by (simp add: assms(1) p)
  then have "butlast (filter (\<lambda>y. \<not> stale e y) v @ replicate (length (filter (stale e) v)) None)
      = pre @ butlast ?X"
    using butlast_append_ne[OF ne, of pre] by (simp only:)
  moreover have "length (butlast ?X) = length rest - 1" using lX by simp
  moreover have "set (butlast ?X) \<subseteq> insert None (set rest)"
  proof
    fix y assume "y \<in> set (butlast ?X)"
    then have "y \<in> set ?X" by (rule in_set_butlastD)
    then show "y \<in> insert None (set rest)" by auto
  qed
  ultimately show ?thesis by blast
qed

lemma walk_step:
  assumes inv: "cache_inv (hash_min k) n tr" and n: "0 < n"
    and nc: "\<not> cached (hash_min k) tr (inode_at k i)"
    and gp: "get_parent k st tr (dget_parent k d) = Inr (st1, p)"
    and ok: "sink_ok k (sid st + 1)"
    and v: "lru_view (hash_min k) tr = pre @ rest" "rest \<noteq> []"
      "\<forall>y\<in>set pre. \<not> stale (entry_of_inode (inode_at k i)) y"
  shows "\<exists>tr2 rest'.
           walk_body k st tr i d =
             Inr (st1\<lparr>sid := sid st + 1,
                      trace := trace st @ [naming_record k (sid st + 1) i p d]\<rparr>, tr2,
                  case (p, dget_parent k d) of (Some p', Some pd) \<Rightarrow> Some (p', pd) | _ \<Rightarrow> None) \<and>
           cache_inv (hash_min k) n tr2 \<and> fsm tr2 = fsm tr \<and>
           lru_view (hash_min k) tr2 = Some (entry_of_inode (inode_at k i)) # pre @ rest' \<and>
           length rest' = length rest - 1 \<and> set rest' \<subseteq> insert None (set rest)"
proof -
  let ?h = "hash_min k" and ?x = "inode_at k i"
  let ?e = "entry_of_inode ?x"
  let ?v = "lru_view ?h tr"
  obtain r tr1 where l: "lookup ?h tr ?x = (r, tr1)" "(r \<noteq> None) = cached ?h tr ?x"
      "cached ?h tr ?x = fst (spec_lookup ?e ?v)" "lru_view ?h tr1 = snd (spec_lookup ?e ?v)"
      "cache_inv ?h n tr1" "fsm tr1 = fsm tr"
    using lookup_refines[OF inv, of ?x] by blast
  have r: "r = None" using l(2) nc by simp
  have nin: "Some ?e \<notin> set ?v" using l(3) nc by (auto simp: spec_lookup_def split: if_splits)
  have v1: "lru_view ?h tr1 = filter (\<lambda>y. \<not> stale ?e y) ?v @
              replicate (length (filter (stale ?e) ?v)) None"
    using l(4) nin by (simp add: spec_lookup_def)
  have w1: "cache_wf ?h n tr1" and nd1: "nodup ?h tr1" using l(5) by (simp_all add: cache_inv_def)
  obtain tr2 where m: "map_entry ?h tr1 ?x = Inr tr2" using map_entry_succeeds[OF w1 n] by blast
  have w2: "cache_wf ?h n tr2" using cache_wf_map_entry[OF w1 n m] .
  have v2: "lru_view ?h tr2 = spec_insert ?e (lru_view ?h tr1)"
    using lru_view_map_entry[OF w1 n m] .
  have "\<forall>y\<in>set (lru_view ?h tr1). \<not> stale ?e y" by (auto simp: v1 stale_def)
  then have nd2: "nodup ?h tr2"
    using nodup_spec_insert[of "lru_view ?h tr1" ?e] nd1
    by (simp add: nodup_def live_mappings_def v2)
  have f2: "fsm tr2 = fsm tr" using map_entry_eq[OF w1 n, of ?x] m l(6) by auto
  have gp1: "get_parent k st tr1 (dget_parent k d) = Inr (st1, p)"
    using gp get_parent_fsm[OF l(6)] by simp
  have body: "walk_body k st tr i d =
             Inr (st1\<lparr>sid := sid st + 1,
                      trace := trace st @ [naming_record k (sid st + 1) i p d]\<rparr>, tr2,
                  case (p, dget_parent k d) of (Some p', Some pd) \<Rightarrow> Some (p', pd) | _ \<Rightarrow> None)"
    using walk_body_miss_ok[OF _ gp1 ok m] l(1) r by simp
  obtain rest' where rv: "Some ?e # butlast (filter (\<lambda>y. \<not> stale ?e y) ?v @
                      replicate (length (filter (stale ?e) ?v)) None) = Some ?e # pre @ rest'"
      "length rest' = length rest - 1" "set rest' \<subseteq> insert None (set rest)"
    using miss_insert_view[OF v] by blast
  have "lru_view ?h tr2 = Some ?e # pre @ rest'"
    using rv(1) by (simp add: v2 v1 spec_insert_def)
  then show ?thesis
    using body w2 nd2 f2 rv(2,3) by (auto simp: cache_inv_def)
qed

lemma walk_hit:
  assumes inv: "cache_inv (hash_min k) n tr" and c: "cached (hash_min k) tr (inode_at k i)"
  shows "\<exists>tr1. walk_body k st tr i d = Inr (st, tr1, None) \<and> cache_inv (hash_min k) n tr1 \<and>
           (\<forall>x. cached (hash_min k) tr1 x = cached (hash_min k) tr x)"
proof -
  let ?h = "hash_min k" and ?x = "inode_at k i"
  obtain r tr1 where l: "lookup ?h tr ?x = (r, tr1)" "(r \<noteq> None) = cached ?h tr ?x"
      "lru_view ?h tr1 = snd (spec_lookup (entry_of_inode ?x) (lru_view ?h tr))"
      "cache_inv ?h n tr1"
    using lookup_refines[OF inv, of ?x] by blast
  obtain e where e: "r = Some e" using l(2) c by auto
  have w: "cache_wf ?h n tr" and w1: "cache_wf ?h n tr1"
    using inv l(4) by (simp_all add: cache_inv_def)
  have m: "Some (entry_of_inode ?x) \<in> set (lru_view ?h tr)" using c cached_iff_view[OF w] by simp
  then have "set (lru_view ?h tr1) = set (lru_view ?h tr)"
    using set_cons_remove1[OF m] by (simp add: l(3) spec_lookup_def)
  then have "\<forall>x. cached ?h tr1 x = cached ?h tr x"
    by (simp add: cached_iff_view[OF w] cached_iff_view[OF w1])
  then show ?thesis using walk_body_hit[of k tr i e tr1 st d] l(1,4) e by simp
qed

lemma not_cached_after:
  assumes w0: "cache_wf h n tr" and w1: "cache_wf h n tr1"
    and nc: "\<not> cached h tr x"
    and v: "lru_view h tr1 = pre @ rest" "set rest \<subseteq> insert None (set (lru_view h tr))"
    and p: "Some (entry_of_inode x) \<notin> set pre"
  shows "\<not> cached h tr1 x"
proof -
  have "Some (entry_of_inode x) \<notin> set (lru_view h tr)" using nc cached_iff_view[OF w0] by simp
  then have "Some (entry_of_inode x) \<notin> set rest" using v(2) by auto
  then show ?thesis using p by (simp add: cached_iff_view[OF w1] v(1))
qed

lemma cache_inv_init: "cache_inv h n (init_inode_tracer n f)"
  by (simp add: cache_inv_def cache_wf_init nodup_def live_mappings_def lru_view_init)

lemma miss_then_map_inv:
  assumes inv: "cache_inv h n tr" and n: "0 < n"
    and l: "lookup h tr x = (None, tr1)" and m: "map_entry h tr1 x = Inr tr2"
  shows "cache_inv h n tr2 \<and> fsm tr2 = fsm tr"
proof -
  let ?e = "entry_of_inode x" and ?v = "lru_view h tr"
  obtain r t1 where a: "lookup h tr x = (r, t1)" "(r \<noteq> None) = cached h tr x"
      "cached h tr x = fst (spec_lookup ?e ?v)" "lru_view h t1 = snd (spec_lookup ?e ?v)"
      "cache_inv h n t1" "fsm t1 = fsm tr"
    using lookup_refines[OF inv, of x] by blast
  have t1: "t1 = tr1" and r: "r = None" using a(1) l by simp_all
  have nin: "Some ?e \<notin> set ?v" using a(2,3) r by (auto simp: spec_lookup_def split: if_splits)
  have v1: "lru_view h tr1 = filter (\<lambda>y. \<not> stale ?e y) ?v @
              replicate (length (filter (stale ?e) ?v)) None"
    using a(4) nin by (simp add: spec_lookup_def t1)
  have w1: "cache_wf h n tr1" and nd1: "nodup h tr1" using a(5) by (simp_all add: cache_inv_def t1)
  have w2: "cache_wf h n tr2" using cache_wf_map_entry[OF w1 n m] .
  have v2: "lru_view h tr2 = spec_insert ?e (lru_view h tr1)"
    using lru_view_map_entry[OF w1 n m] .
  have "\<forall>y\<in>set (lru_view h tr1). \<not> stale ?e y" by (auto simp: v1 stale_def)
  then have nd2: "nodup h tr2"
    using nodup_spec_insert[of "lru_view h tr1" ?e] nd1
    by (simp add: nodup_def live_mappings_def v2)
  have f2: "fsm tr2 = fsm tr" using map_entry_eq[OF w1 n, of x] m a(6) t1 by auto
  show ?thesis using w2 nd2 f2 by (simp add: cache_inv_def)
qed

lemma walk_body_inv:
  assumes inv: "cache_inv (hash_min k) n tr" and n: "0 < n"
    and b: "walk_body k st tr i d = Inr (st', tr', nx)"
  shows "cache_inv (hash_min k) n tr' \<and> fsm tr' = fsm tr"
proof -
  let ?h = "hash_min k" and ?x = "inode_at k i"
  obtain r tr1 where l: "lookup ?h tr ?x = (r, tr1)" "cache_inv ?h n tr1" "fsm tr1 = fsm tr"
    using lookup_refines[OF inv, of ?x] by blast
  show ?thesis
  proof (cases r)
    case (Some e)
    then have "walk_body k st tr i d = Inr (st, tr1, None)" using l(1) by (simp add: walk_body_def)
    then show ?thesis using b l(2,3) by simp
  next
    case None
    then have l': "lookup ?h tr ?x = (None, tr1)" using l(1) by simp
    obtain st1 p where g: "get_parent k st tr1 (dget_parent k d) = Inr (st1, p)"
      using b l' by (cases "get_parent k st tr1 (dget_parent k d)")
        (auto simp: walk_body_def bind_err_def)
    show ?thesis
    proof (cases "sink_ok k (sid st + 1)")
      case True
      obtain tr2 where m: "map_entry ?h tr1 ?x = Inr tr2"
        using map_entry_succeeds[of ?h n tr1 ?x] l(2) n by (auto simp: cache_inv_def)
      have "tr' = tr2" using walk_body_miss_ok[OF l' g True m] b by simp
      then show ?thesis using miss_then_map_inv[OF inv n l' m] by simp
    next
      case False
      have "tr' = tr1" using walk_body_miss_fails[OF l' g False] b by simp
      then show ?thesis using l(2,3) by simp
    qed
  qed
qed

lemma walk_loop_inv:
  "cache_inv (hash_min k) n tr \<Longrightarrow> 0 < n \<Longrightarrow>
   walk_loop fuel k st tr i d = Some (Inr (st', tr')) \<Longrightarrow>
   cache_inv (hash_min k) n tr' \<and> fsm tr' = fsm tr"
proof (induction fuel arbitrary: st tr i d)
  case 0
  then show ?case by simp
next
  case (Suc fuel)
  show ?case
  proof (cases "walk_body k st tr i d")
    case (Inl e)
    then show ?thesis using Suc.prems(3) by simp
  next
    case (Inr r)
    obtain s1 t1 nx where r: "r = (s1, t1, nx)" by (cases r) auto
    have b: "walk_body k st tr i d = Inr (s1, t1, nx)" using Inr r by simp
    have i1: "cache_inv (hash_min k) n t1" "fsm t1 = fsm tr"
      using walk_body_inv[OF Suc.prems(1,2) b] by simp_all
    show ?thesis
    proof (cases nx)
      case None
      then show ?thesis using b i1 Suc.prems(3) by simp
    next
      case (Some a)
      obtain p pd where "a = (p, pd)" by (cases a) auto
      then have "walk_loop fuel k s1 t1 p pd = Some (Inr (st', tr'))"
        using b Some Suc.prems(3) by simp
      then show ?thesis using Suc.IH[OF i1(1) Suc.prems(2)] i1(2) by simp
    qed
  qed
qed

lemma iotrace_trace_inode_inv:
  "cache_inv (hash_min k) n tr \<Longrightarrow> 0 < n \<Longrightarrow>
   iotrace_trace_inode fuel k st tr i = Some (Inr (st', tr')) \<Longrightarrow>
   cache_inv (hash_min k) n tr' \<and> fsm tr' = fsm tr"
  using walk_loop_inv by (auto simp: iotrace_trace_inode_def split: option.splits)

lemma fold_remove_entry_subset:
  "entries (fold (\<lambda>i t. remove_entry t i) S tr) = entries tr \<and>
   set (hash_table (fold (\<lambda>i t. remove_entry t i) S tr) b) \<subseteq> set (hash_table tr b)"
proof (induction S arbitrary: tr)
  case Nil
  show ?case by simp
next
  case (Cons i S)
  have "set (hash_table (remove_entry tr i) b) \<subseteq> set (hash_table tr b)"
    using set_remove1_subset[of i "hash_table tr b"] by (simp add: remove_entry_def hash_del_def)
  then show ?case using Cons.IH[of "remove_entry tr i"] by auto
qed

lemma lookup_miss_stays_uncached:
  assumes "\<not> cached h tr x"
  shows "fst (lookup h tr x) = None \<and> \<not> cached h (snd (lookup h tr x)) x"
proof -
  let ?S = "filter (\<lambda>i. key_of (entries tr ! i) = inode_key x) (hash_table tr (h (i_ino x)))"
  have l: "lookup h tr x = (None, fold (\<lambda>i t. remove_entry t i) ?S tr)"
    by (rule lookup_miss_eq[OF assms])
  have "\<not> cached h (fold (\<lambda>i t. remove_entry t i) ?S tr) x"
    using assms fold_remove_entry_subset[of ?S tr "h (i_ino x)"]
    by (auto simp: cached_def)
  then show ?thesis using l by simp
qed

section \<open>The claims\<close>

text \<open>
  C1. The claim: resolving an uncached object whose parent and grandparent are uncached,
  the grandparent being the root, emits exactly 2 naming records and inserts exactly the
  object and its parent. The walk also visits the root: the loop ends only after the
  pass for the root. The first theorem is the claim as amended. In a cache of at least
  3 entries whose mapped entries have distinct keys, for an object, parent and root with
  distinct keys that are not cached, when the sink takes the three events, the walk
  returns; it has written exactly three naming records (the object with its parent, the
  parent with the root, and the root: with parent number 0 and parent ctime 0 when its
  dentry has no parent, with itself as parent when its dentry is its own parent), the
  three inodes are cached and nothing else is newly cached; a walk on the same object
  right afterwards returns with the same state, so it writes no record. The last
  theorem is a run that refutes the claim as stated: three records are written and the
  root is cached.
\<close>

theorem walk_three_uncached:
  assumes inv: "cache_inv (hash_min k) n tr" and n3: "3 \<le> n"
    and d_alias: "d_find_alias k obj = Some d_obj"
    and p_obj: "dget_parent k d_obj = Some d_par" and i_par: "d_inode k d_par = Some par"
    and p_par: "dget_parent k d_par = Some d_root" and i_root: "d_inode k d_root = Some root"
    and p_root: "dget_parent k d_root = None \<or> dget_parent k d_root = Some d_root"
    and keys: "distinct [inode_key (inode_at k obj), inode_key (inode_at k par),
                         inode_key (inode_at k root)]"
    and unc: "\<not> cached (hash_min k) tr (inode_at k obj)"
      "\<not> cached (hash_min k) tr (inode_at k par)"
      "\<not> cached (hash_min k) tr (inode_at k root)"
    and ok: "sink_ok k (sid st + 1)" "sink_ok k (sid st + 2)" "sink_ok k (sid st + 3)"
    and fuel: "4 \<le> fuel"
  shows "\<exists>st' tr'.
     iotrace_trace_inode fuel k st tr obj = Some (Inr (st', tr')) \<and>
     trace st' = trace st @
       [naming_record k (sid st + 1) obj (Some par) d_obj,
        naming_record k (sid st + 2) par (Some root) d_par,
        naming_record k (sid st + 3) root
          (case dget_parent k d_root of None \<Rightarrow> None | Some pd \<Rightarrow> Some root) d_root] \<and>
     cached (hash_min k) tr' (inode_at k obj) \<and>
     cached (hash_min k) tr' (inode_at k par) \<and>
     cached (hash_min k) tr' (inode_at k root) \<and>
     (\<forall>x. cached (hash_min k) tr' x \<longrightarrow>
          cached (hash_min k) tr x \<or>
          entry_of_inode x \<in> {entry_of_inode (inode_at k obj), entry_of_inode (inode_at k par),
                               entry_of_inode (inode_at k root)}) \<and>
     cache_inv (hash_min k) n tr' \<and>
     (\<forall>fuel'. 0 < fuel' \<longrightarrow>
        (\<exists>tr''. iotrace_trace_inode fuel' k st' tr' obj = Some (Inr (st', tr''))))"
proof -
  let ?h = "hash_min k"
  let ?eo = "entry_of_inode (inode_at k obj)" and ?ep = "entry_of_inode (inode_at k par)"
    and ?er = "entry_of_inode (inode_at k root)"
  let ?v0 = "lru_view ?h tr"
  let ?pr = "case dget_parent k d_root of None \<Rightarrow> None | Some pd \<Rightarrow> Some root"
  have n: "0 < n" using n3 by simp
  have w0: "cache_wf ?h n tr" using inv by (simp add: cache_inv_def)
  have len0: "length ?v0 = n" by (rule length_lru_view[OF w0])
  have ne: "?eo \<noteq> ?ep" "?eo \<noteq> ?er" "?ep \<noteq> ?er"
    using keys by (auto dest: entry_of_inode_key)
  have ns: "\<not> stale ?ep (Some ?eo)" "\<not> stale ?er (Some ?eo)" "\<not> stale ?er (Some ?ep)"
    using keys by (auto simp: stale_def)
  \<comment> \<open>first pass: the object\<close>
  obtain s1 where g1: "get_parent k st tr (dget_parent k d_obj) = Inr (s1, Some par)"
    using get_parent_Some[OF i_par, of st tr] p_obj by auto
  have v0: "?v0 = [] @ ?v0" "?v0 \<noteq> []" "\<forall>y\<in>set []. \<not> stale ?eo y"
    using len0 n3 by auto
  obtain tr1 r1 where b1: "walk_body k st tr obj d_obj =
        Inr (s1\<lparr>sid := sid st + 1,
                 trace := trace st @ [naming_record k (sid st + 1) obj (Some par) d_obj]\<rparr>, tr1,
             case (Some par, dget_parent k d_obj) of
               (Some p', Some pd) \<Rightarrow> Some (p', pd) | _ \<Rightarrow> None)"
      and inv1: "cache_inv ?h n tr1"
      and v1: "lru_view ?h tr1 = Some ?eo # [] @ r1"
      and l1: "length r1 = length ?v0 - 1" and s1: "set r1 \<subseteq> insert None (set ?v0)"
    using walk_step[OF inv n unc(1) g1 ok(1) v0] by blast
  let ?st1 = "s1\<lparr>sid := sid st + 1,
                 trace := trace st @ [naming_record k (sid st + 1) obj (Some par) d_obj]\<rparr>"
  have b1': "walk_body k st tr obj d_obj = Inr (?st1, tr1, Some (par, d_par))"
    using b1 p_obj by simp
  have w1: "cache_wf ?h n tr1" using inv1 by (simp add: cache_inv_def)
  \<comment> \<open>second pass: the parent\<close>
  have v1': "lru_view ?h tr1 = [Some ?eo] @ r1" using v1 by simp
  have nc1: "\<not> cached ?h tr1 (inode_at k par)"
    using not_cached_after[OF w0 w1 unc(2) v1' s1] ne by simp
  obtain s2 where g2: "get_parent k ?st1 tr1 (dget_parent k d_par) = Inr (s2, Some root)"
    using get_parent_Some[OF i_root, of ?st1 tr1] p_par by auto
  have ok2: "sink_ok k (sid ?st1 + 1)" using ok(2) by (simp add: add.assoc)
  have r1ne: "r1 \<noteq> []" using l1 len0 n3 by auto
  have pre1: "\<forall>y\<in>set [Some ?eo]. \<not> stale ?ep y" using ns by simp
  obtain tr2 r2 where b2: "walk_body k ?st1 tr1 par d_par =
        Inr (s2\<lparr>sid := sid ?st1 + 1,
                 trace := trace ?st1 @ [naming_record k (sid ?st1 + 1) par (Some root) d_par]\<rparr>, tr2,
             case (Some root, dget_parent k d_par) of
               (Some p', Some pd) \<Rightarrow> Some (p', pd) | _ \<Rightarrow> None)"
      and inv2: "cache_inv ?h n tr2"
      and v2: "lru_view ?h tr2 = Some ?ep # [Some ?eo] @ r2"
      and l2: "length r2 = length r1 - 1" and s2: "set r2 \<subseteq> insert None (set r1)"
    using walk_step[OF inv1 n nc1 g2 ok2 v1' r1ne pre1] by blast
  let ?st2 = "s2\<lparr>sid := sid st + 2,
                 trace := trace st @ [naming_record k (sid st + 1) obj (Some par) d_obj,
                                      naming_record k (sid st + 2) par (Some root) d_par]\<rparr>"
  have b2': "walk_body k ?st1 tr1 par d_par = Inr (?st2, tr2, Some (root, d_root))"
    using b2 p_par by (simp add: add.assoc)
  have w2: "cache_wf ?h n tr2" using inv2 by (simp add: cache_inv_def)
  \<comment> \<open>third pass: the root\<close>
  have v2': "lru_view ?h tr2 = [Some ?ep, Some ?eo] @ r2" using v2 by simp
  have s2': "set r2 \<subseteq> insert None (set ?v0)" using s2 s1 by auto
  have nc2: "\<not> cached ?h tr2 (inode_at k root)"
    using not_cached_after[OF w0 w2 unc(3) v2' s2'] ne by simp
  obtain s3 where g3: "get_parent k ?st2 tr2 (dget_parent k d_root) = Inr (s3, ?pr)"
  proof (cases "dget_parent k d_root")
    case None
    then show ?thesis using that[of ?st2] by simp
  next
    case (Some pd)
    then have "pd = d_root" using p_root by simp
    then show ?thesis using that get_parent_Some[OF i_root, of ?st2 tr2] Some by auto
  qed
  have ok3: "sink_ok k (sid ?st2 + 1)" using ok(3) by (simp add: add.assoc)
  have r2ne: "r2 \<noteq> []" using l2 l1 len0 n3 by auto
  have pre2: "\<forall>y\<in>set [Some ?ep, Some ?eo]. \<not> stale ?er y" using ns by simp
  obtain tr3 r3 where b3: "walk_body k ?st2 tr2 root d_root =
        Inr (s3\<lparr>sid := sid ?st2 + 1,
                 trace := trace ?st2 @ [naming_record k (sid ?st2 + 1) root ?pr d_root]\<rparr>, tr3,
             case (?pr, dget_parent k d_root) of
               (Some p', Some pd) \<Rightarrow> Some (p', pd) | _ \<Rightarrow> None)"
      and inv3: "cache_inv ?h n tr3"
      and v3: "lru_view ?h tr3 = Some ?er # [Some ?ep, Some ?eo] @ r3"
      and s3: "set r3 \<subseteq> insert None (set r2)"
    using walk_step[OF inv2 n nc2 g3 ok3 v2' r2ne pre2] by blast
  let ?st3 = "s3\<lparr>sid := sid st + 3,
                 trace := trace st @ [naming_record k (sid st + 1) obj (Some par) d_obj,
                                      naming_record k (sid st + 2) par (Some root) d_par,
                                      naming_record k (sid st + 3) root ?pr d_root]\<rparr>"
  have b3': "walk_body k ?st2 tr2 root d_root =
      Inr (?st3, tr3, case dget_parent k d_root of None \<Rightarrow> None | Some pd \<Rightarrow> Some (root, pd))"
    using b3 by (simp add: add.assoc split: option.splits)
  have w3: "cache_wf ?h n tr3" using inv3 by (simp add: cache_inv_def)
  have c3: "cached ?h tr3 (inode_at k obj)" "cached ?h tr3 (inode_at k par)"
    "cached ?h tr3 (inode_at k root)"
    by (simp_all add: cached_iff_view[OF w3] v3)
  have s3': "set r3 \<subseteq> insert None (set ?v0)" using s3 s2' by auto
  have ex3: "\<forall>x. cached ?h tr3 x \<longrightarrow> cached ?h tr x \<or> entry_of_inode x \<in> {?eo, ?ep, ?er}"
    using s3' by (auto simp: cached_iff_view[OF w3] cached_iff_view[OF w0] v3)
  \<comment> \<open>the end of the loop: no parent, or a hit on the root that is its own parent\<close>
  obtain m where "fuel = 4 + m" using fuel le_Suc_ex by blast
  then have m: "fuel = Suc (Suc (Suc (Suc m)))" by simp
  obtain trF where fin: "walk_loop (Suc (Suc m)) k ?st2 tr2 root d_root = Some (Inr (?st3, trF))"
      and invF: "cache_inv ?h n trF" and cF: "\<forall>x. cached ?h trF x = cached ?h tr3 x"
  proof (cases "dget_parent k d_root")
    case None
    then have "walk_body k ?st2 tr2 root d_root = Inr (?st3, tr3, None)" using b3' by simp
    then have "walk_loop (Suc (Suc m)) k ?st2 tr2 root d_root = Some (Inr (?st3, tr3))"
      by (rule walk_loop_stop)
    then show ?thesis using that[of tr3] inv3 by simp
  next
    case (Some pd)
    then have pd: "pd = d_root" using p_root by simp
    have nx: "walk_body k ?st2 tr2 root d_root = Inr (?st3, tr3, Some (root, d_root))"
      using b3' Some pd by simp
    obtain tr4 where h: "walk_body k ?st3 tr3 root d_root = Inr (?st3, tr4, None)"
        "cache_inv ?h n tr4" "\<forall>x. cached ?h tr4 x = cached ?h tr3 x"
      using walk_hit[OF inv3 c3(3), of ?st3 d_root] by blast
    have "walk_loop (Suc (Suc m)) k ?st2 tr2 root d_root = Some (Inr (?st3, tr4))"
      using walk_loop_next[OF nx, of "Suc m"] walk_loop_stop[OF h(1), of m] by simp
    then show ?thesis using that[of tr4] h(2,3) by simp
  qed
  have "walk_loop fuel k st tr obj d_obj = Some (Inr (?st3, trF))"
    unfolding m
    using walk_loop_next[OF b1', of "Suc (Suc (Suc m))"] walk_loop_next[OF b2', of "Suc (Suc m)"]
      fin
    by simp
  then have res: "iotrace_trace_inode fuel k st tr obj = Some (Inr (?st3, trF))"
    using d_alias by (simp add: iotrace_trace_inode_def)
  have tr: "trace ?st3 = trace st @
       [naming_record k (sid st + 1) obj (Some par) d_obj,
        naming_record k (sid st + 2) par (Some root) d_par,
        naming_record k (sid st + 3) root ?pr d_root]"
    by simp
  have c: "cached ?h trF (inode_at k obj)" "cached ?h trF (inode_at k par)"
    "cached ?h trF (inode_at k root)"
    using c3 cF by simp_all
  have ex: "\<forall>x. cached ?h trF x \<longrightarrow> cached ?h tr x \<or> entry_of_inode x \<in> {?eo, ?ep, ?er}"
    using ex3 cF by simp
  have again: "\<forall>fuel'. 0 < fuel' \<longrightarrow>
        (\<exists>tr''. iotrace_trace_inode fuel' k ?st3 trF obj = Some (Inr (?st3, tr'')))"
  proof (intro allI impI)
    fix fuel' :: nat assume "0 < fuel'"
    then obtain m' where m': "fuel' = Suc m'" by (cases fuel') auto
    obtain tr5 where h: "walk_body k ?st3 trF obj d_obj = Inr (?st3, tr5, None)"
      using walk_hit[OF invF c(1), of ?st3 d_obj] by blast
    have "iotrace_trace_inode fuel' k ?st3 trF obj = Some (Inr (?st3, tr5))"
      unfolding m' using walk_loop_stop[OF h, of m'] d_alias by (simp add: iotrace_trace_inode_def)
    then show "\<exists>tr''. iotrace_trace_inode fuel' k ?st3 trF obj = Some (Inr (?st3, tr''))"
      by blast
  qed
  show ?thesis
    by (intro exI[of _ ?st3] exI[of _ trF] conjI res tr c ex invF again)
qed

theorem walk_three_uncached_witness:
  "(\<exists>st' tr'.
     iotrace_trace_inode 4 (example_kernel three_levels never_full) example_state
       (init_inode_tracer 4 None) 1 = Some (Inr (st', tr')) \<and>
     trace st' =
       [naming_record (example_kernel three_levels never_full) 1 1 (Some 2) 1,
        naming_record (example_kernel three_levels never_full) 2 2 (Some 3) 2,
        naming_record (example_kernel three_levels never_full) 3 3 None 3] \<and>
     cached (\<lambda>w. unat w mod 4) tr' (example_inode 1) \<and>
     cached (\<lambda>w. unat w mod 4) tr' (example_inode 2) \<and>
     cached (\<lambda>w. unat w mod 4) tr' (example_inode 3) \<and>
     (\<exists>tr''. iotrace_trace_inode 1 (example_kernel three_levels never_full) st' tr' 1 =
        Some (Inr (st', tr'')))) \<and>
   (\<exists>st' tr'.
     iotrace_trace_inode 4 (example_kernel root_own_parent never_full) example_state
       (init_inode_tracer 4 None) 3 = Some (Inr (st', tr')) \<and>
     trace st' =
       [naming_record (example_kernel root_own_parent never_full) 1 3 (Some 2) 3,
        naming_record (example_kernel root_own_parent never_full) 2 2 (Some 1) 2,
        naming_record (example_kernel root_own_parent never_full) 3 1 (Some 1) 1] \<and>
     cached (\<lambda>w. unat w mod 4) tr' (example_inode 3) \<and>
     cached (\<lambda>w. unat w mod 4) tr' (example_inode 2) \<and>
     cached (\<lambda>w. unat w mod 4) tr' (example_inode 1) \<and>
     (\<exists>tr''. iotrace_trace_inode 1 (example_kernel root_own_parent never_full) st' tr' 3 =
        Some (Inr (st', tr''))))"
proof -
  let ?t = "init_inode_tracer 4 None"
  have s0: "sid example_state = 0" "trace example_state = []" by (simp_all add: example_state_def)
  have n: "(3::nat) \<le> 4" "(4::nat) \<le> 4" by simp_all
  have first: "\<exists>st' tr'.
     iotrace_trace_inode 4 (example_kernel three_levels never_full) example_state ?t 1 =
       Some (Inr (st', tr')) \<and>
     trace st' =
       [naming_record (example_kernel three_levels never_full) 1 1 (Some 2) 1,
        naming_record (example_kernel three_levels never_full) 2 2 (Some 3) 2,
        naming_record (example_kernel three_levels never_full) 3 3 None 3] \<and>
     cached (\<lambda>w. unat w mod 4) tr' (example_inode 1) \<and>
     cached (\<lambda>w. unat w mod 4) tr' (example_inode 2) \<and>
     cached (\<lambda>w. unat w mod 4) tr' (example_inode 3) \<and>
     (\<exists>tr''. iotrace_trace_inode 1 (example_kernel three_levels never_full) st' tr' 1 =
        Some (Inr (st', tr'')))"
  proof -
    let ?k = "example_kernel three_levels never_full"
    have h: "hash_min ?k = (\<lambda>w. unat w mod 4)" "inode_at ?k = example_inode"
      by (simp_all add: example_kernel_def)
    have inv: "cache_inv (hash_min ?k) 4 ?t" by (rule cache_inv_init)
    have e: "d_find_alias ?k 1 = Some 1" "dget_parent ?k 1 = Some 2" "d_inode ?k 2 = Some 2"
      "dget_parent ?k 2 = Some 3" "d_inode ?k 3 = Some 3"
      "dget_parent ?k 3 = None \<or> dget_parent ?k 3 = Some 3"
      by (simp_all add: example_kernel_def three_levels_def)
    have pr: "dget_parent ?k 3 = None" by (simp add: example_kernel_def three_levels_def)
    have keys: "distinct [inode_key (inode_at ?k 1), inode_key (inode_at ?k 2),
                          inode_key (inode_at ?k 3)]"
      by (simp add: h inode_key_def example_inode_def)
    have unc: "\<not> cached (hash_min ?k) ?t (inode_at ?k 1)"
      "\<not> cached (hash_min ?k) ?t (inode_at ?k 2)" "\<not> cached (hash_min ?k) ?t (inode_at ?k 3)"
      by (simp_all add: cached_def init_inode_tracer_def)
    have ok: "sink_ok ?k (sid example_state + 1)" "sink_ok ?k (sid example_state + 2)"
      "sink_ok ?k (sid example_state + 3)"
      by (simp_all add: sink_ok_def example_kernel_def never_full_def)
    obtain st' tr' where r:
       "iotrace_trace_inode 4 ?k example_state ?t 1 = Some (Inr (st', tr'))"
       "trace st' = trace example_state @
         [naming_record ?k (sid example_state + 1) 1 (Some 2) 1,
          naming_record ?k (sid example_state + 2) 2 (Some 3) 2,
          naming_record ?k (sid example_state + 3) 3
            (case dget_parent ?k 3 of None \<Rightarrow> None | Some pd \<Rightarrow> Some 3) 3]"
       "cached (hash_min ?k) tr' (inode_at ?k 1)" "cached (hash_min ?k) tr' (inode_at ?k 2)"
       "cached (hash_min ?k) tr' (inode_at ?k 3)"
       "\<forall>fuel'. 0 < fuel' \<longrightarrow>
          (\<exists>tr''. iotrace_trace_inode fuel' ?k st' tr' 1 = Some (Inr (st', tr'')))"
      using walk_three_uncached[OF inv n(1) e keys unc ok n(2)] by auto
    have again: "\<exists>tr''. iotrace_trace_inode 1 ?k st' tr' 1 = Some (Inr (st', tr''))"
      using r(6) by simp
    show ?thesis
      using r(1,2,3,4,5) again unfolding h s0 pr
      by (intro exI[of _ st'] exI[of _ tr']) simp
  qed
  have second: "\<exists>st' tr'.
     iotrace_trace_inode 4 (example_kernel root_own_parent never_full) example_state ?t 3 =
       Some (Inr (st', tr')) \<and>
     trace st' =
       [naming_record (example_kernel root_own_parent never_full) 1 3 (Some 2) 3,
        naming_record (example_kernel root_own_parent never_full) 2 2 (Some 1) 2,
        naming_record (example_kernel root_own_parent never_full) 3 1 (Some 1) 1] \<and>
     cached (\<lambda>w. unat w mod 4) tr' (example_inode 3) \<and>
     cached (\<lambda>w. unat w mod 4) tr' (example_inode 2) \<and>
     cached (\<lambda>w. unat w mod 4) tr' (example_inode 1) \<and>
     (\<exists>tr''. iotrace_trace_inode 1 (example_kernel root_own_parent never_full) st' tr' 3 =
        Some (Inr (st', tr'')))"
  proof -
    let ?k = "example_kernel root_own_parent never_full"
    have h: "hash_min ?k = (\<lambda>w. unat w mod 4)" "inode_at ?k = example_inode"
      by (simp_all add: example_kernel_def)
    have inv: "cache_inv (hash_min ?k) 4 ?t" by (rule cache_inv_init)
    have e: "d_find_alias ?k 3 = Some 3" "dget_parent ?k 3 = Some 2" "d_inode ?k 2 = Some 2"
      "dget_parent ?k 2 = Some 1" "d_inode ?k 1 = Some 1"
      "dget_parent ?k 1 = None \<or> dget_parent ?k 1 = Some 1"
      by (simp_all add: example_kernel_def root_own_parent_def)
    have pr: "dget_parent ?k 1 = Some 1" by (simp add: example_kernel_def root_own_parent_def)
    have keys: "distinct [inode_key (inode_at ?k 3), inode_key (inode_at ?k 2),
                          inode_key (inode_at ?k 1)]"
      by (simp add: h inode_key_def example_inode_def)
    have unc: "\<not> cached (hash_min ?k) ?t (inode_at ?k 3)"
      "\<not> cached (hash_min ?k) ?t (inode_at ?k 2)" "\<not> cached (hash_min ?k) ?t (inode_at ?k 1)"
      by (simp_all add: cached_def init_inode_tracer_def)
    have ok: "sink_ok ?k (sid example_state + 1)" "sink_ok ?k (sid example_state + 2)"
      "sink_ok ?k (sid example_state + 3)"
      by (simp_all add: sink_ok_def example_kernel_def never_full_def)
    obtain st' tr' where r:
       "iotrace_trace_inode 4 ?k example_state ?t 3 = Some (Inr (st', tr'))"
       "trace st' = trace example_state @
         [naming_record ?k (sid example_state + 1) 3 (Some 2) 3,
          naming_record ?k (sid example_state + 2) 2 (Some 1) 2,
          naming_record ?k (sid example_state + 3) 1
            (case dget_parent ?k 1 of None \<Rightarrow> None | Some pd \<Rightarrow> Some 1) 1]"
       "cached (hash_min ?k) tr' (inode_at ?k 3)" "cached (hash_min ?k) tr' (inode_at ?k 2)"
       "cached (hash_min ?k) tr' (inode_at ?k 1)"
       "\<forall>fuel'. 0 < fuel' \<longrightarrow>
          (\<exists>tr''. iotrace_trace_inode fuel' ?k st' tr' 3 = Some (Inr (st', tr'')))"
      using walk_three_uncached[OF inv n(1) e keys unc ok n(2)] by auto
    have again: "\<exists>tr''. iotrace_trace_inode 1 ?k st' tr' 3 = Some (Inr (st', tr''))"
      using r(6) by simp
    show ?thesis
      using r(1,2,3,4,5) again unfolding h s0 pr
      by (intro exI[of _ st'] exI[of _ tr']) simp
  qed
  show ?thesis using first second by (rule conjI)
qed

theorem walk_three_uncached_counterexample:
  "three_levels 1 = Some 2 \<and> three_levels 2 = Some 3 \<and> three_levels 3 = None \<and>
   \<not> cached (\<lambda>w. unat w mod 4) (init_inode_tracer 4 None) (example_inode 1) \<and>
   \<not> cached (\<lambda>w. unat w mod 4) (init_inode_tracer 4 None) (example_inode 2) \<and>
   \<not> cached (\<lambda>w. unat w mod 4) (init_inode_tracer 4 None) (example_inode 3) \<and>
   walk_trace (iotrace_trace_inode 3 (example_kernel three_levels never_full) example_state
        (init_inode_tracer 4 None) 1) =
     Some [naming_record (example_kernel three_levels never_full) 1 1 (Some 2) 1,
           naming_record (example_kernel three_levels never_full) 2 2 (Some 3) 2,
           naming_record (example_kernel three_levels never_full) 3 3 None 3] \<and>
   walk_cached (\<lambda>w. unat w mod 4)
     (iotrace_trace_inode 3 (example_kernel three_levels never_full) example_state
        (init_inode_tracer 4 None) 1) (example_inode 3)"
  by (simp add: walk_eval never_full_def numeral_3_eq_3 upt_rec)

text \<open>
  C2. The claim: when the emission of an object's naming record fails, the walk aborts
  there, the object is not inserted, and no further ancestor is processed or emitted.
  The first theorem is the claim as amended. In a pass of the loop that misses the
  cache and whose emission fails, \<^verbatim>\<open>_map\<close> is not called: the pass ends without an
  error, the tracer stays as the lookup left it, the object is not cached, and no event
  is written. The walk is not aborted: when the dentry has a parent other than itself,
  the next pass of the loop is for the parent; when there is no parent, the walk
  returns. The last theorem is a run that refutes the claim as stated: the sink refuses
  the record of inode 1 only, and the walk still emits the records of its ancestors 2
  and 3 and inserts both.
\<close>

theorem emission_failure_skips_insert:
  assumes miss: "fst (lookup (hash_min k) tr (inode_at k this_inode)) = None"
    and gp: "get_parent k st (snd (lookup (hash_min k) tr (inode_at k this_inode)))
               (dget_parent k this_dentry) = Inr (st1, parent_inode)"
    and fail: "\<not> sink_ok k (sid st + 1)"
  shows "(\<exists>nx. walk_body k st tr this_inode this_dentry =
           Inr (st1\<lparr>sid := sid st + 1\<rparr>,
                snd (lookup (hash_min k) tr (inode_at k this_inode)), nx)) \<and>
         trace (st1\<lparr>sid := sid st + 1\<rparr>) = trace st \<and>
         \<not> cached (hash_min k) (snd (lookup (hash_min k) tr (inode_at k this_inode)))
             (inode_at k this_inode) \<and>
         (parent_inode = Some p \<and> dget_parent k this_dentry = Some pd \<and> pd \<noteq> this_dentry \<longrightarrow>
            walk_loop (Suc fuel) k st tr this_inode this_dentry =
              walk_loop fuel k (st1\<lparr>sid := sid st + 1\<rparr>)
                (snd (lookup (hash_min k) tr (inode_at k this_inode))) p pd) \<and>
         (parent_inode = None \<or> dget_parent k this_dentry = None \<longrightarrow>
            walk_loop (Suc fuel) k st tr this_inode this_dentry =
              Some (Inr (st1\<lparr>sid := sid st + 1\<rparr>,
                         snd (lookup (hash_min k) tr (inode_at k this_inode)))))"
proof -
  let ?x = "inode_at k this_inode"
  let ?tr1 = "snd (lookup (hash_min k) tr ?x)"
  have l: "lookup (hash_min k) tr ?x = (None, ?tr1)" using miss by (simp add: prod_eq_iff)
  note body = walk_body_miss_fails[OF l gp fail]
  have b: "\<exists>nx. walk_body k st tr this_inode this_dentry = Inr (st1\<lparr>sid := sid st + 1\<rparr>, ?tr1, nx)"
    using body by blast
  have t: "trace (st1\<lparr>sid := sid st + 1\<rparr>) = trace st" using get_parent_keeps[OF gp] by simp
  have nc: "\<not> cached (hash_min k) tr ?x" using miss lookup_result[of "hash_min k" tr ?x] by simp
  have c: "\<not> cached (hash_min k) ?tr1 ?x"
    using lookup_miss_stays_uncached[OF nc] by simp
  have n1: "parent_inode = Some p \<and> dget_parent k this_dentry = Some pd \<and> pd \<noteq> this_dentry \<longrightarrow>
            walk_loop (Suc fuel) k st tr this_inode this_dentry =
              walk_loop fuel k (st1\<lparr>sid := sid st + 1\<rparr>) ?tr1 p pd"
    using body by simp
  have n2: "parent_inode = None \<or> dget_parent k this_dentry = None \<longrightarrow>
            walk_loop (Suc fuel) k st tr this_inode this_dentry =
              Some (Inr (st1\<lparr>sid := sid st + 1\<rparr>, ?tr1))"
    using body by (auto split: option.splits)
  show ?thesis using b t c n1 n2 by blast
qed

theorem emission_failure_skips_insert_witness:
  "(\<exists>nx. walk_body (example_kernel three_levels full_once) example_state
           (init_inode_tracer 4 None) 1 1 =
         Inr (example_state\<lparr>sid := 1\<rparr>, init_inode_tracer 4 None, nx)) \<and>
   \<not> cached (\<lambda>w. unat w mod 4) (init_inode_tracer 4 None) (example_inode 1) \<and>
   walk_loop 3 (example_kernel three_levels full_once) example_state (init_inode_tracer 4 None) 1 1 =
     walk_loop 2 (example_kernel three_levels full_once) (example_state\<lparr>sid := 1\<rparr>)
       (init_inode_tracer 4 None) 2 2"
proof -
  let ?k = "example_kernel three_levels full_once"
  let ?t = "init_inode_tracer 4 None"
  have l: "lookup (hash_min ?k) ?t (inode_at ?k 1) = (None, ?t)"
    by (simp add: lookup_def init_inode_tracer_def)
  have miss: "fst (lookup (hash_min ?k) ?t (inode_at ?k 1)) = None" by (simp only: l fst_conv)
  have gp: "get_parent ?k example_state (snd (lookup (hash_min ?k) ?t (inode_at ?k 1)))
               (dget_parent ?k 1) = Inr (example_state, Some 2)"
    unfolding l snd_conv
    by (simp add: get_parent_def example_kernel_def three_levels_def
        example_inode_def S_ISDIR_def init_inode_tracer_def)
  have fail: "\<not> sink_ok ?k (sid example_state + 1)"
    by (simp add: sink_ok_def example_kernel_def full_once_def example_state_def ENOSPC_def)
  have p: "dget_parent ?k 1 = Some 2" by (simp add: example_kernel_def three_levels_def)
  have h: "hash_min ?k = (\<lambda>w. unat w mod 4)" "inode_at ?k 1 = example_inode 1"
    "sid example_state = 0"
    by (simp_all add: example_kernel_def example_state_def)
  have n: "(3::nat) = Suc 2" by simp
  have l': "lookup (\<lambda>w. unat w mod 4) ?t (example_inode (Suc 0)) = (None, ?t)"
    by (simp add: lookup_def init_inode_tracer_def)
  show ?thesis
    using emission_failure_skips_insert[OF miss gp fail, of 2 2 2] p
    unfolding h n by (simp add: l')
qed

theorem emission_failure_counterexample:
  "\<not> sink_ok (example_kernel three_levels full_once) 1 \<and>
   walk_trace (iotrace_trace_inode 3 (example_kernel three_levels full_once) example_state
        (init_inode_tracer 4 None) 1) =
     Some [naming_record (example_kernel three_levels full_once) 2 2 (Some 3) 2,
           naming_record (example_kernel three_levels full_once) 3 3 None 3] \<and>
   walk_cached (\<lambda>w. unat w mod 4)
     (iotrace_trace_inode 3 (example_kernel three_levels full_once) example_state
        (init_inode_tracer 4 None) 1) (example_inode 2) \<and>
   walk_cached (\<lambda>w. unat w mod 4)
     (iotrace_trace_inode 3 (example_kernel three_levels full_once) example_state
        (init_inode_tracer 4 None) 1) (example_inode 3) \<and>
   \<not> walk_cached (\<lambda>w. unat w mod 4)
     (iotrace_trace_inode 3 (example_kernel three_levels full_once) example_state
        (init_inode_tracer 4 None) 1) (example_inode 1)"
  by (simp add: walk_eval numeral_3_eq_3 upt_rec)

text \<open>
  C3. In a well-formed cache, let an entry on the chain of the inode's bucket have the
  inode's number and device while no entry there has its ctime as well. Then the lookup
  is a miss; it takes the entry off every chain and leaves it on the LRU list, and the
  tail of the LRU list is then an unmapped entry that was mapped for this inode number
  and device (the entry itself when no two mapped entries share a key, as in every cache
  that the walk produces from a new tracer, lemma \<open>iotrace_trace_inode_inv\<close>). The insert that
  follows takes that tail as its victim, stores the inode there, and every mapping for
  another key is cached afterwards exactly when it was cached before.
\<close>

theorem stale_lookup_then_insert:
  assumes w: "cache_wf h n tr"
    and i: "i \<in> set (hash_table tr (h (i_ino x)))" "key_of (entries tr ! i) = inode_key x"
    and nc: "\<not> cached h tr x"
  shows "\<exists>tr' tr''. lookup h tr x = (None, tr') \<and>
           (\<forall>b. i \<notin> set (hash_table tr' b)) \<and>
           i \<in> set (lru_list tr') \<and>
           hashed h tr (last (lru_list tr')) \<and>
           key_of (entries tr ! last (lru_list tr')) = inode_key x \<and>
           \<not> hashed h tr' (last (lru_list tr')) \<and>
           (nodup h tr \<longrightarrow> last (lru_list tr') = i) \<and>
           map_entry h tr' x = Inr tr'' \<and>
           hd (lru_list tr'') = last (lru_list tr') \<and>
           entries tr'' ! last (lru_list tr') = entry_of_inode x \<and>
           cached h tr'' x \<and>
           (\<forall>y. inode_key y \<noteq> inode_key x \<longrightarrow> cached h tr'' y = cached h tr y) \<and>
           live_mappings h tr'' =
             entry_of_inode x # filter (\<lambda>e. key_of e \<noteq> inode_key x) (live_mappings h tr)"
proof -
  let ?e = "entry_of_inode x"
  let ?c = "hash_table tr (h (i_ino x))"
  let ?S = "filter (\<lambda>i. key_of (entries tr ! i) = inode_key x) ?c"
  let ?t = "fold (\<lambda>i t. remove_entry t i) ?S tr"
  let ?v = "lru_view h tr"
  have lk: "lookup h tr x = (None, ?t)" by (rule lookup_miss_eq[OF nc])
  have dS: "distinct ?S" using w by (simp add: cache_wf_def)
  have sS: "set ?S \<subseteq> {..<n}" using cache_wf_bucket[OF w] by auto
  note fr = fold_remove_entry[OF w dS sS]
  have wt: "cache_wf h n ?t" and ent: "entries ?t = entries tr"
    and lru: "lru_list ?t = filter (\<lambda>j. j \<notin> set ?S) (lru_list tr) @ ?S"
    and ht: "\<And>b. hash_table ?t b = filter (\<lambda>j. j \<notin> set ?S) (hash_table tr b)"
    using fr by simp_all
  have iS: "i \<in> set ?S" using i by simp
  have i_n: "i < n" using cache_wf_bucket[OF w i(1)] by simp
  have n: "0 < n" using i_n by simp
  have Sne: "?S \<noteq> []" using iS by (metis empty_iff empty_set)
  have last: "last (lru_list ?t) = last ?S" using Sne by (simp add: lru)
  have lS: "last ?S \<in> set ?S" using Sne by (rule last_in_set)
  have lkey: "key_of (entries tr ! last ?S) = inode_key x" and lch: "last ?S \<in> set ?c"
    using lS by auto
  have lh: "hashed h tr (last ?S)"
    using lkey lch by (simp add: hashed_def key_of_def inode_key_def)
  have lnh: "\<not> hashed h ?t (last ?S)"
    using lS by (simp add: hashed_def ent ht)
  have p1: "\<forall>b. i \<notin> set (hash_table ?t b)" using iS by (simp add: ht)
  have p2: "i \<in> set (lru_list ?t)" using iS by (simp add: lru)
  have p3: "nodup h tr \<longrightarrow> last (lru_list ?t) = i"
  proof
    assume nd: "nodup h tr"
    have hi: "hashed h tr i" using i by (simp add: hashed_def key_of_def inode_key_def)
    have "last ?S < n" using lS sS by auto
    then show "last (lru_list ?t) = i"
      using nodup_unique[OF w nd lh hi _ i_n] lkey i(2) last by simp
  qed
  obtain tr'' where m: "map_entry h ?t x = Inr tr''"
    using map_entry_succeeds[OF wt n] by blast
  have w'': "cache_wf h n tr''" using cache_wf_map_entry[OF wt n m] .
  have meq: "tr'' = ?t\<lparr>entries := (entries ?t)[last (lru_list ?t) := ?e],
            lru_list := last (lru_list ?t) # butlast (lru_list ?t),
            hash_table := hash_add h (hash_del (last (lru_list ?t)) (hash_table ?t))
                            (last (lru_list ?t)) (i_ino x)\<rparr>"
    using map_entry_eq[OF wt n, of x] m by simp
  have len: "length (entries tr) = n" using w by (simp add: cache_wf_def)
  have p4: "hd (lru_list tr'') = last (lru_list ?t)" by (subst meq) simp
  have "last ?S < n" using lS sS by auto
  then have p5: "entries tr'' ! last (lru_list ?t) = ?e"
    by (subst meq) (simp add: ent len last)
  obtain t' where lm: "lookup h tr x = (None, t')"
      "lru_view h t' = snd (spec_lookup ?e ?v)" "\<not> fst (spec_lookup ?e ?v)"
    using lookup_miss[OF w nc] by blast
  have t': "t' = ?t" using lm(1) lk by simp
  have nin: "Some ?e \<notin> set ?v" using nc cached_iff_view[OF w] by simp
  have vt: "lru_view h ?t = filter (\<lambda>y. \<not> stale ?e y) ?v @
              replicate (length (filter (stale ?e) ?v)) None"
    using lm(2) nin by (simp add: t' spec_lookup_def)
  have "Some (entries tr ! i) \<in> set ?v"
  proof -
    have "hashed h tr i" using i by (simp add: hashed_def key_of_def inode_key_def)
    moreover have "i \<in> set (lru_list tr)" using i_n w by (simp add: cache_wf_def)
    ultimately show ?thesis by (force simp: lru_view_def)
  qed
  moreover have "stale ?e (Some (entries tr ! i))" using i(2) by (simp add: stale_def)
  ultimately have "filter (stale ?e) ?v \<noteq> []" by (auto simp: filter_empty_conv)
  then have kpos: "0 < length (filter (stale ?e) ?v)" by simp
  have v'': "lru_view h tr'' = Some ?e # filter (\<lambda>y. \<not> stale ?e y) ?v @
              replicate (length (filter (stale ?e) ?v) - 1) None"
    using lru_view_map_entry[OF wt n m] butlast_append_replicate[OF kpos]
    by (simp add: spec_insert_def vt)
  have p6: "cached h tr'' x" using cached_iff_view[OF w''] v'' by simp
  have p7: "\<forall>y. inode_key y \<noteq> inode_key x \<longrightarrow> cached h tr'' y = cached h tr y"
  proof (intro allI impI)
    fix y assume k: "inode_key y \<noteq> inode_key x"
    then have "entry_of_inode y \<noteq> ?e" using entry_of_inode_key by blast
    moreover have "\<not> stale ?e (Some (entry_of_inode y))" using k by (simp add: stale_def)
    ultimately show "cached h tr'' y = cached h tr y"
      by (auto simp: cached_iff_view[OF w''] cached_iff_view[OF w] v'')
  qed
  have p8: "live_mappings h tr'' = ?e # filter (\<lambda>e. key_of e \<noteq> inode_key x) (live_mappings h tr)"
    by (simp add: live_mappings_def v'' somes_filter_not_stale)
  have lh': "hashed h tr (last (lru_list ?t))"
    and lkey': "key_of (entries tr ! last (lru_list ?t)) = inode_key x"
    and lnh': "\<not> hashed h ?t (last (lru_list ?t))"
    unfolding last using lh lkey lnh by blast+
  show ?thesis
    by (intro exI[of _ ?t] exI[of _ tr''] conjI lk p1 p2 lh' lkey' lnh' p3 m p4 p5 p6 p7 p8)
qed


theorem stale_lookup_then_insert_witness:
  "\<exists>tr' tr''.
     lookup (\<lambda>w. unat w mod 4) example_tracer ((example_inode 5)\<lparr>i_ctime_tv_sec := 200\<rparr>) =
       (None, tr') \<and>
     last (lru_list tr') = 0 \<and>
     map_entry (\<lambda>w. unat w mod 4) tr' ((example_inode 5)\<lparr>i_ctime_tv_sec := 200\<rparr>) = Inr tr'' \<and>
     hd (lru_list tr'') = 0 \<and>
     entries tr'' ! 0 = entry_of_inode ((example_inode 5)\<lparr>i_ctime_tv_sec := 200\<rparr>) \<and>
     cached (\<lambda>w. unat w mod 4) tr'' ((example_inode 5)\<lparr>i_ctime_tv_sec := 200\<rparr>) \<and>
     \<not> cached (\<lambda>w. unat w mod 4) tr'' (example_inode 5)"
proof -
  let ?h = "\<lambda>w::64 word. unat w mod 4"
  let ?x = "(example_inode 5)\<lparr>i_ctime_tv_sec := 200\<rparr>"
  have a: "0 \<in> set (hash_table example_tracer (?h (i_ino ?x)))"
    by (simp add: example_tracer_def example_inode_def)
  have b: "key_of (entries example_tracer ! 0) = inode_key ?x"
    by (simp add: example_tracer_def example_inode_def key_of_def inode_key_def entry_of_inode_def)
  have c: "\<not> cached ?h example_tracer ?x"
    by (simp add: cached_def example_tracer_def example_inode_def entry_of_inode_def)
  have d: "\<not> cached ?h example_tracer (example_inode 5) \<or> inode_key (example_inode 5) = inode_key ?x"
    by (simp add: inode_key_def)
  obtain tr' tr'' where t: "lookup ?h example_tracer ?x = (None, tr')"
      "nodup ?h example_tracer \<longrightarrow> last (lru_list tr') = 0"
      "map_entry ?h tr' ?x = Inr tr''"
      "hd (lru_list tr'') = last (lru_list tr')"
      "entries tr'' ! last (lru_list tr') = entry_of_inode ?x"
      "cached ?h tr'' ?x"
      "live_mappings ?h tr'' =
         entry_of_inode ?x # filter (\<lambda>e. key_of e \<noteq> inode_key ?x) (live_mappings ?h example_tracer)"
    using stale_lookup_then_insert[OF example_tracer_wf a b c] by blast
  have l0: "last (lru_list tr') = 0" using t(2) example_tracer_nodup by simp
  have w': "cache_wf ?h 4 tr'" using cache_wf_lookup[OF example_tracer_wf, of ?x] t(1) by simp
  have w'': "cache_wf ?h 4 tr''" using cache_wf_map_entry[OF w' _ t(3)] by simp
  have lm: "live_mappings ?h example_tracer = [entry_of_inode (example_inode 5)]"
    by (simp add: live_mappings_def lru_view_def somes_def hashed_def example_tracer_def
      entry_of_inode_def example_inode_def zero_entry_def)
  have "live_mappings ?h tr'' = [entry_of_inode ?x]"
    using t(7) by (simp add: lm key_of_def inode_key_def entry_of_inode_def example_inode_def)
  then have nc: "\<not> cached ?h tr'' (example_inode 5)"
    by (simp add: cached_iff_live[OF w''] entry_of_inode_def example_inode_def)
  show ?thesis
    using t(1,3,4,5,6) l0 nc by auto
qed

text \<open>
  C4. The tracer is created with an array of \<^verbatim>\<open>CACHE_SIZE\<close> entries. In every
  tracer that lookups and inserts reach from it the array has that length and at most
  \<^verbatim>\<open>CACHE_SIZE\<close> entries are mapped; an insert succeeds, with the tail of the LRU
  list as its victim. Inserting \<^verbatim>\<open>CACHE_SIZE + 1\<close> inodes with distinct keys into
  the new tracer leaves exactly the last \<^verbatim>\<open>CACHE_SIZE\<close> of them mapped: the first
  one is not cached, the others are.
\<close>

theorem cache_capacity:
  "snd (iotrace_create_inode_tracer True f) = Some (init_inode_tracer (unat CACHE_SIZE) f) \<and>
   (reachable h (unat CACHE_SIZE) tr \<longrightarrow>
      length (entries tr) = unat CACHE_SIZE \<and>
      length (live_mappings h tr) \<le> unat CACHE_SIZE \<and>
      (\<exists>tr'. map_entry h tr x = Inr tr' \<and>
             lru_list tr' = last (lru_list tr) # butlast (lru_list tr) \<and>
             entries tr' = (entries tr)[last (lru_list tr) := entry_of_inode x] \<and>
             cached h tr' x)) \<and>
   (length ks = unat CACHE_SIZE + 1 \<and> distinct (map inode_key ks) \<longrightarrow>
      (\<exists>tr'. map_entries h (init_inode_tracer (unat CACHE_SIZE) f) ks = Inr tr' \<and>
             \<not> cached h tr' (hd ks) \<and> (\<forall>x\<in>set (tl ks). cached h tr' x) \<and>
             live_mappings h tr' = rev (map entry_of_inode (tl ks))))"
proof (intro conjI impI)
  show "snd (iotrace_create_inode_tracer True f) = Some (init_inode_tracer (unat CACHE_SIZE) f)"
    by (simp add: iotrace_create_inode_tracer_def)
next
  assume r: "reachable h (unat CACHE_SIZE) tr"
  have w: "cache_wf h (unat CACHE_SIZE) tr" using reachable_cache_wf[OF r CACHE_SIZE_pos] .
  then show "length (entries tr) = unat CACHE_SIZE" by (simp add: cache_wf_def)
  show "length (live_mappings h tr) \<le> unat CACHE_SIZE"
    using length_somes[of "lru_view h tr"] length_lru_view[OF w] by (simp add: live_mappings_def)
  show "\<exists>tr'. map_entry h tr x = Inr tr' \<and>
             lru_list tr' = last (lru_list tr) # butlast (lru_list tr) \<and>
             entries tr' = (entries tr)[last (lru_list tr) := entry_of_inode x] \<and>
             cached h tr' x"
    by (rule map_entry_victim[OF w CACHE_SIZE_pos])
next
  assume "length ks = unat CACHE_SIZE + 1 \<and> distinct (map inode_key ks)"
  then show "\<exists>tr'. map_entries h (init_inode_tracer (unat CACHE_SIZE) f) ks = Inr tr' \<and>
             \<not> cached h tr' (hd ks) \<and> (\<forall>x\<in>set (tl ks). cached h tr' x) \<and>
             live_mappings h tr' = rev (map entry_of_inode (tl ks))"
    using insert_one_too_many[OF CACHE_SIZE_pos] by blast
qed

theorem cache_capacity_witness:
  "length (entries (init_inode_tracer (unat CACHE_SIZE) None)) = unat CACHE_SIZE \<and>
   unat CACHE_SIZE = 8192 \<and>
   (\<exists>tr'. map_entry (\<lambda>w. unat w mod 1024) (init_inode_tracer (unat CACHE_SIZE) None)
            (example_inode 5) = Inr tr' \<and> cached (\<lambda>w. unat w mod 1024) tr' (example_inode 5)) \<and>
   (\<exists>tr'. map_entries (\<lambda>w. unat w mod 1024) (init_inode_tracer (unat CACHE_SIZE) None)
            (example_inodes (unat CACHE_SIZE + 1)) = Inr tr' \<and>
          \<not> cached (\<lambda>w. unat w mod 1024) tr' (example_inode 0) \<and>
          cached (\<lambda>w. unat w mod 1024) tr' (example_inode 1) \<and>
          cached (\<lambda>w. unat w mod 1024) tr' (example_inode 8192))"
proof -
  let ?h = "\<lambda>w::64 word. unat w mod 1024"
  let ?t0 = "init_inode_tracer (unat CACHE_SIZE) None"
  let ?ks = "example_inodes (unat CACHE_SIZE + 1)"
  note t = cache_capacity[of None ?h ?t0 "example_inode 5" ?ks]
  have r: "reachable ?h (unat CACHE_SIZE) ?t0" by (rule reachable_init)
  have l: "length ?ks = unat CACHE_SIZE + 1" by (rule length_example_inodes)
  have d: "distinct (map inode_key ?ks)"
    by (rule distinct_example_inodes) (simp add: CACHE_SIZE_value)
  have h: "hd ?ks = example_inode 0" by (rule hd_example_inodes) simp
  have m1: "example_inode 1 \<in> set (tl ?ks)" 
    by (rule tl_example_inodes) (simp_all add: CACHE_SIZE_value)
  have m2: "example_inode 8192 \<in> set (tl ?ks)"
    by (rule tl_example_inodes) (simp_all add: CACHE_SIZE_value)
  from t r have a: "length (entries ?t0) = unat CACHE_SIZE"
    "\<exists>tr'. map_entry ?h ?t0 (example_inode 5) = Inr tr' \<and> cached ?h tr' (example_inode 5)"
    by blast+
  from t l d obtain tr' where b: "map_entries ?h ?t0 ?ks = Inr tr'"
    "\<not> cached ?h tr' (hd ?ks)" "\<forall>x\<in>set (tl ?ks). cached ?h tr' x"
    by blast
  have "\<not> cached ?h tr' (example_inode 0)" using b(2) h by simp
  moreover have "cached ?h tr' (example_inode 1)" "cached ?h tr' (example_inode 8192)"
    using b(3) m1 m2 by blast+
  ultimately show ?thesis using a b(1) CACHE_SIZE_value by blast
qed

text \<open>
  C5. With three entries: after inserting inodes A, B, C with distinct keys all three
  are cached and a lookup of A is a hit; inserting D with a fourth key after that lookup
  evicts B and keeps A and C. Without the lookup the same insert evicts A.
\<close>

theorem lru_promotion:
  assumes d: "distinct [inode_key A, inode_key B, inode_key C, inode_key D]"
  shows "\<exists>t1 t2 t3 i t4 t5 u5.
     map_entry h (init_inode_tracer 3 f) A = Inr t1 \<and> map_entry h t1 B = Inr t2 \<and>
     map_entry h t2 C = Inr t3 \<and>
     cached h t3 A \<and> cached h t3 B \<and> cached h t3 C \<and>
     lookup h t3 A = (Some i, t4) \<and> map_entry h t4 D = Inr t5 \<and>
     cached h t5 A \<and> \<not> cached h t5 B \<and> cached h t5 C \<and> cached h t5 D \<and>
     map_entry h t3 D = Inr u5 \<and> \<not> cached h u5 A \<and> cached h u5 B"
proof -
  let ?a = "entry_of_inode A" and ?b = "entry_of_inode B" and ?c = "entry_of_inode C"
    and ?d = "entry_of_inode D"
  have ne: "?a \<noteq> ?b" "?a \<noteq> ?c" "?a \<noteq> ?d" "?b \<noteq> ?c" "?b \<noteq> ?d" "?c \<noteq> ?d"
    using d by (auto dest: entry_of_inode_key)
  have n3: "(0::nat) < 3" by simp
  let ?t0 = "init_inode_tracer 3 f"
  have w0: "cache_wf h 3 ?t0" by (rule cache_wf_init)
  have v0: "lru_view h ?t0 = [None, None, None]"
    by (simp add: lru_view_init numeral_3_eq_3)
  obtain t1 where t1: "map_entry h ?t0 A = Inr t1" using map_entry_succeeds[OF w0 n3] by blast
  have w1: "cache_wf h 3 t1" using cache_wf_map_entry[OF w0 n3 t1] .
  have v1: "lru_view h t1 = [Some ?a, None, None]"
    using lru_view_map_entry[OF w0 n3 t1] v0 by (simp add: spec_insert_def)
  obtain t2 where t2: "map_entry h t1 B = Inr t2" using map_entry_succeeds[OF w1 n3] by blast
  have w2: "cache_wf h 3 t2" using cache_wf_map_entry[OF w1 n3 t2] .
  have v2: "lru_view h t2 = [Some ?b, Some ?a, None]"
    using lru_view_map_entry[OF w1 n3 t2] v1 by (simp add: spec_insert_def)
  obtain t3 where t3: "map_entry h t2 C = Inr t3" using map_entry_succeeds[OF w2 n3] by blast
  have w3: "cache_wf h 3 t3" using cache_wf_map_entry[OF w2 n3 t3] .
  have v3: "lru_view h t3 = [Some ?c, Some ?b, Some ?a]"
    using lru_view_map_entry[OF w2 n3 t3] v2 by (simp add: spec_insert_def)
  have inv3: "cache_inv h 3 t3"
    using w3 d by (auto simp: cache_inv_def nodup_def live_mappings_def v3)
  obtain r t4 where l: "lookup h t3 A = (r, t4)" "(r \<noteq> None) = cached h t3 A"
      "lru_view h t4 = snd (spec_lookup ?a (lru_view h t3))" "cache_inv h 3 t4"
    using lookup_refines[OF inv3, of A] by blast
  have c3: "cached h t3 A" "cached h t3 B" "cached h t3 C"
    by (simp_all add: cached_view[OF w3 v3])
  obtain i where i: "r = Some i" using l(2) c3(1) by auto
  have w4: "cache_wf h 3 t4" using l(4) by (simp add: cache_inv_def)
  have v4: "lru_view h t4 = [Some ?a, Some ?c, Some ?b]"
    using l(3) ne by (simp add: v3 spec_lookup_def)
  obtain t5 where t5: "map_entry h t4 D = Inr t5" using map_entry_succeeds[OF w4 n3] by blast
  have w5: "cache_wf h 3 t5" using cache_wf_map_entry[OF w4 n3 t5] .
  have v5: "lru_view h t5 = [Some ?d, Some ?a, Some ?c]"
    using lru_view_map_entry[OF w4 n3 t5] v4 by (simp add: spec_insert_def)
  have c5: "cached h t5 A" "\<not> cached h t5 B" "cached h t5 C" "cached h t5 D"
    using ne by (auto simp: cached_view[OF w5 v5])
  obtain u5 where u5: "map_entry h t3 D = Inr u5" using map_entry_succeeds[OF w3 n3] by blast
  have wu: "cache_wf h 3 u5" using cache_wf_map_entry[OF w3 n3 u5] .
  have vu: "lru_view h u5 = [Some ?d, Some ?c, Some ?b]"
    using lru_view_map_entry[OF w3 n3 u5] v3 by (simp add: spec_insert_def)
  have cu: "\<not> cached h u5 A" "cached h u5 B"
    using ne by (auto simp: cached_view[OF wu vu])
  show ?thesis
    using t1 t2 t3 c3 l(1) i t5 c5 u5 cu by blast
qed


theorem lru_promotion_witness:
  "\<exists>t1 t2 t3 i t4 t5 u5.
     map_entry (\<lambda>w. unat w mod 4) (init_inode_tracer 3 None) (example_inode 1) = Inr t1 \<and>
     map_entry (\<lambda>w. unat w mod 4) t1 (example_inode 2) = Inr t2 \<and>
     map_entry (\<lambda>w. unat w mod 4) t2 (example_inode 3) = Inr t3 \<and>
     cached (\<lambda>w. unat w mod 4) t3 (example_inode 1) \<and>
     cached (\<lambda>w. unat w mod 4) t3 (example_inode 2) \<and>
     cached (\<lambda>w. unat w mod 4) t3 (example_inode 3) \<and>
     lookup (\<lambda>w. unat w mod 4) t3 (example_inode 1) = (Some i, t4) \<and>
     map_entry (\<lambda>w. unat w mod 4) t4 (example_inode 4) = Inr t5 \<and>
     cached (\<lambda>w. unat w mod 4) t5 (example_inode 1) \<and>
     \<not> cached (\<lambda>w. unat w mod 4) t5 (example_inode 2) \<and>
     cached (\<lambda>w. unat w mod 4) t5 (example_inode 3) \<and>
     cached (\<lambda>w. unat w mod 4) t5 (example_inode 4) \<and>
     map_entry (\<lambda>w. unat w mod 4) t3 (example_inode 4) = Inr u5 \<and>
     \<not> cached (\<lambda>w. unat w mod 4) u5 (example_inode 1) \<and>
     cached (\<lambda>w. unat w mod 4) u5 (example_inode 2)"
proof -
  have "distinct [inode_key (example_inode 1), inode_key (example_inode 2),
                  inode_key (example_inode 3), inode_key (example_inode 4)]"
    by (simp add: inode_key_def example_inode_def)
  then show ?thesis by (rule lru_promotion)
qed

text \<open>
  C6. The claim: the number of cache entries is 4 times the number of hash buckets.
  The macros give \<^verbatim>\<open>CACHE_SIZE\<close> = 8192 entries, 4 times
  \<^verbatim>\<open>CACHE_HASH_SIZE\<close> = 2048; the hash table declared with
  \<^verbatim>\<open>CACHE_HASH_BITS\<close> has 1024 buckets, half of \<^verbatim>\<open>CACHE_HASH_SIZE\<close>. So
  there are 8 entries for each bucket, not 4.
\<close>

theorem cache_size_is_eight_times_buckets:
  "unat CACHE_SIZE = 8 * hash_table_buckets \<and> unat CACHE_SIZE \<noteq> 4 * hash_table_buckets \<and>
   unat CACHE_HASH_SIZE = 2 * hash_table_buckets"
  by (simp add: CACHE_SIZE_def CACHE_HASH_SIZE_def CACHE_HASH_BITS_def hash_table_buckets_def
      DECLARE_HASHTABLE_def)

text \<open>
  C7. \<^verbatim>\<open>_fs_add_mark\<close> is idempotent. When the group already has a mark on the inode
  the call changes nothing. Otherwise, when the kernel attaches the new mark, the mark
  is recorded with the mask of all events and one reference; when the kernel refuses,
  the mark is freed again and the state is as before the call.
\<close>

theorem fs_add_mark_idempotent:
  "fs_add_mark k (fs_add_mark k st grp p) grp p = fs_add_mark k st grp p \<and>
   (marks st (grp, p) \<noteq> None \<longrightarrow> fs_add_mark k st grp p = st) \<and>
   (marks st (grp, p) = None \<and> fsnotify_add_mark k p = 0 \<longrightarrow>
      fs_add_mark k st grp p =
        st\<lparr>mark_cache := mark_cache st + 1,
           marks := (marks st)((grp, p) \<mapsto> \<lparr>mark_mask = ALL_FSNOTIFY_EVENTS k, refcnt = 1\<rparr>)\<rparr>) \<and>
   (marks st (grp, p) = None \<and> fsnotify_add_mark k p \<noteq> 0 \<longrightarrow>
      fs_add_mark k st grp p = st)"
proof (cases "marks st (grp, p)")
  case (Some m)
  then show ?thesis by (simp add: fs_add_mark_present)
next
  case None
  show ?thesis
  proof (cases "fsnotify_add_mark k p = 0")
    case True
    have "marks (fs_add_mark k st grp p) (grp, p) = Some \<lparr>mark_mask = ALL_FSNOTIFY_EVENTS k, refcnt = 1\<rparr>"
      by (simp add: fs_add_mark_new[OF None True])
    then have "fs_add_mark k (fs_add_mark k st grp p) grp p = fs_add_mark k st grp p"
      by (rule fs_add_mark_present)
    then show ?thesis using None True by (simp add: fs_add_mark_new)
  next
    case False
    then show ?thesis using None by (simp add: fs_add_mark_fails)
  qed
qed

theorem fs_add_mark_idempotent_witness:
  "fs_add_mark (example_kernel three_levels (\<lambda>s. 0)) example_state 7 2 =
     example_state\<lparr>mark_cache := 1, marks := [(7, 2) \<mapsto> \<lparr>mark_mask = 0xFFF, refcnt = 1\<rparr>]\<rparr> \<and>
   fs_add_mark (example_kernel three_levels (\<lambda>s. 0))
     (fs_add_mark (example_kernel three_levels (\<lambda>s. 0)) example_state 7 2) 7 2 =
     example_state\<lparr>mark_cache := 1, marks := [(7, 2) \<mapsto> \<lparr>mark_mask = 0xFFF, refcnt = 1\<rparr>]\<rparr> \<and>
   fs_add_mark ((example_kernel three_levels (\<lambda>s. 0))\<lparr>fsnotify_add_mark := (\<lambda>p. - 2)\<rparr>)
     example_state 7 2 = example_state"
proof -
  let ?k = "example_kernel three_levels (\<lambda>s. 0)"
  let ?kf = "?k\<lparr>fsnotify_add_mark := (\<lambda>p. - 2)\<rparr>"
  have a: "marks example_state (7, 2) = None" by (simp add: example_state_def)
  have b: "fsnotify_add_mark ?k 2 = 0" by (simp add: example_kernel_def)
  have c: "fsnotify_add_mark ?kf 2 \<noteq> 0" by simp
  have m: "mark_cache example_state = 0" "ALL_FSNOTIFY_EVENTS ?k = 0xFFF"
    "marks example_state = Map.empty"
    by (simp_all add: example_state_def example_kernel_def)
  note t1 = fs_add_mark_idempotent[of ?k example_state 7 2]
  note t2 = fs_add_mark_idempotent[of ?kf example_state 7 2]
  have A: "fs_add_mark ?k example_state 7 2 =
     example_state\<lparr>mark_cache := 1, marks := [(7, 2) \<mapsto> \<lparr>mark_mask = 0xFFF, refcnt = 1\<rparr>]\<rparr>"
    using t1 a b m by simp
  have B: "fs_add_mark ?k (fs_add_mark ?k example_state 7 2) 7 2 = fs_add_mark ?k example_state 7 2"
    using t1 by (rule conjunct1)
  have C: "fs_add_mark ?kf example_state 7 2 = example_state"
    using t2 a c by simp
  show ?thesis
    by (intro conjI) (rule A, rule trans[OF B A], rule C)
qed




text \<open>
  C9. The claim: every invocation of the walk terminates. The loop is left at a cache
  hit or when there is no parent inode or dentry. A root dentry is its own parent in
  the kernel, so at the root the loop can only end by a hit, and the root is inserted
  only after its record was emitted. The theorem: when the dentry of an inode that is
  not cached is its own parent and the sink stays full, no number of passes ends the
  loop. Each pass misses the cache, fails to emit, skips the insert and comes back to
  the same inode. The second theorem is such a run from a new tracer. (Lemma
  \<open>walk_loop_returns\<close>: on a parent chain that ends, the walk returns.)
\<close>

theorem walk_spins_on_full_sink:
  assumes root: "dget_parent k d = Some d" "d_inode k d = Some i"
    and full: "\<forall>s. \<not> sink_ok k s"
    and unc: "\<not> cached (hash_min k) tr (inode_at k i)"
  shows "walk_loop fuel k st tr i d = None"
  using unc
proof (induction fuel arbitrary: st tr)
  case 0
  show ?case by simp
next
  case (Suc fuel)
  let ?tr1 = "snd (lookup (hash_min k) tr (inode_at k i))"
  have m: "fst (lookup (hash_min k) tr (inode_at k i)) = None"
    and u1: "\<not> cached (hash_min k) ?tr1 (inode_at k i)"
    using lookup_miss_stays_uncached[OF Suc.prems] by simp_all
  have l: "lookup (hash_min k) tr (inode_at k i) = (None, ?tr1)"
    using m by (simp add: prod_eq_iff)
  obtain st1 where g: "get_parent k st ?tr1 (dget_parent k d) = Inr (st1, Some i)"
    using get_parent_Some[OF root(2), of st ?tr1] root(1) by auto
  have f: "\<not> sink_ok k (sid st + 1)" using full by simp
  have "walk_body k st tr i d = Inr (st1\<lparr>sid := sid st + 1\<rparr>, ?tr1, Some (i, d))"
    using walk_body_miss_fails[OF l g f] root(1) by simp
  then show ?case using Suc.IH[OF u1] by simp
qed

theorem walk_spins_on_full_sink_witness:
  "\<forall>fuel. iotrace_trace_inode fuel (example_kernel root_own_parent always_full) example_state
     (init_inode_tracer (unat CACHE_SIZE) None) 1 = None"
proof
  fix fuel
  let ?k = "example_kernel root_own_parent always_full"
  have a: "dget_parent ?k 1 = Some 1" "d_inode ?k 1 = Some 1" "d_find_alias ?k 1 = Some 1"
    by (simp_all add: example_kernel_def root_own_parent_def)
  have b: "\<forall>s. \<not> sink_ok ?k s"
    by (simp add: sink_ok_def example_kernel_def always_full_def ENOSPC_def)
  have c: "\<not> cached (hash_min ?k) (init_inode_tracer (unat CACHE_SIZE) None) (inode_at ?k 1)"
    by (simp add: cached_def init_inode_tracer_def)
  show "iotrace_trace_inode fuel ?k example_state (init_inode_tracer (unat CACHE_SIZE) None) 1 =
        None"
    using walk_spins_on_full_sink[OF a(1,2) b c] a(3) by (simp add: iotrace_trace_inode_def)
qed

text \<open>
  C10. With a payload of kind \<^verbatim>\<open>FSNOTIFY_EVENT_NONE\<close> the handler returns 0 and
  leaves the state as it is: no event is written and no mark is added.
\<close>

theorem fs_handle_event_none:
  "fs_handle_event k st grp inode_p msk FSNOTIFY_EVENT_NONE = Inr (0, st)"
  by (simp add: fs_handle_event_def)

end
